theory Spec2Isabelle
  imports Main
begin

section \<open>Go library functions used by bloggen\<close>

text \<open>
  The tool \<^verbatim>\<open>tools/bloggen/main.go\<close> is a composition of calls into Go's standard
  library. Strings are byte sequences, as Go's \<^verbatim>\<open>string\<close> and \<^verbatim>\<open>[]byte\<close> are. The
  functions below follow the library's documented behaviour on a Unix system, where
  \<^verbatim>\<open>filepath.Separator\<close> is the slash and there are no volume names.
\<close>

subsection \<open>Indexing and slicing\<close>

text \<open>
  Go panics on \<^verbatim>\<open>xs[i]\<close> with \<open>i\<close> out of range and on \<^verbatim>\<open>s[:n]\<close> with \<open>n\<close>
  negative. Both are written out: \<open>None\<close> is the run-time panic.
\<close>

definition at :: "'a list \<Rightarrow> nat \<Rightarrow> 'a option" where
  "at xs i = (if i < length xs then Some (xs ! i) else None)"

definition sliceTo :: "string \<Rightarrow> int \<Rightarrow> string option" where
  "sliceTo s n = (if 0 \<le> n \<and> n \<le> int (length s) then Some (take (nat n) s) else None)"

subsection \<open>Package strings (and bytes)\<close>

definition HasPrefix :: "string \<Rightarrow> string \<Rightarrow> bool" where
  "HasPrefix s pre = (length pre \<le> length s \<and> take (length pre) s = pre)"

definition HasSuffix :: "string \<Rightarrow> string \<Rightarrow> bool" where
  "HasSuffix s suf = (length suf \<le> length s \<and> drop (length s - length suf) s = suf)"

definition TrimSuffix :: "string \<Rightarrow> string \<Rightarrow> string" where
  "TrimSuffix s suf = (if HasSuffix s suf then take (length s - length suf) s else s)"

text \<open>\<^verbatim>\<open>strings.Index\<close>: the offset of the first instance of \<open>sep\<close>; Go's \<open>-1\<close> is \<open>None\<close>.\<close>

fun Index :: "string \<Rightarrow> string \<Rightarrow> nat option" where
  "Index [] sep = (if sep = [] then Some 0 else None)"
| "Index (c # cs) sep =
     (if HasPrefix (c # cs) sep then Some 0 else map_option Suc (Index cs sep))"

text \<open>
  \<^verbatim>\<open>strings.Split(s, sep)\<close> (and \<^verbatim>\<open>bytes.Split\<close>) cuts at every instance of \<open>sep\<close>, found
  from the left, and always returns at least one piece when \<open>sep\<close> is not empty. With
  an empty \<open>sep\<close> Go explodes \<open>s\<close> into its UTF-8 sequences; bloggen only passes the
  literals \<^verbatim>\<open>"/"\<close>, \<^verbatim>\<open>"]("\<close> and \<^verbatim>\<open>"\n"\<close>, and the model gives the bytes one by one
  there.
\<close>

function Split :: "string \<Rightarrow> string \<Rightarrow> string list" where
  "Split s sep =
     (if sep = [] then map (\<lambda>c. [c]) s
      else case Index s sep of
             None \<Rightarrow> [s]
           | Some m \<Rightarrow> take m s # Split (drop (m + length sep) s) sep)"
  by pat_completeness auto
termination
proof (relation "measure (\<lambda>(s, sep). length s)")
  fix s sep :: string and m :: nat
  assume "sep \<noteq> []" and "Index s sep = Some m"
  then have "s \<noteq> []" by (cases s) auto
  with \<open>sep \<noteq> []\<close> show "((drop (m + length sep) s, sep), (s, sep)) \<in> measure (\<lambda>(s, sep). length s)"
    by simp
qed simp

declare Split.simps [simp del]

text \<open>
  \<^verbatim>\<open>strings.ReplaceAll(s, old, new)\<close>: every non-overlapping instance of \<open>old\<close>, from the
  left. With an empty \<open>old\<close> Go inserts \<open>new\<close> before every UTF-8 sequence and at the
  end; bloggen passes \<^verbatim>\<open>"-"\<close>.
\<close>

function ReplaceAll :: "string \<Rightarrow> string \<Rightarrow> string \<Rightarrow> string" where
  "ReplaceAll s old new =
     (if old = new then s
      else if old = [] then new @ concat (map (\<lambda>c. c # new) s)
      else case Index s old of
             None \<Rightarrow> s
           | Some j \<Rightarrow> take j s @ new @ ReplaceAll (drop (j + length old) s) old new)"
  by pat_completeness auto
termination
proof (relation "measure (\<lambda>(s, old, new). length s)")
  fix s old new :: string and j :: nat
  assume "old \<noteq> []" and "Index s old = Some j"
  then have "s \<noteq> []" by (cases s) auto
  with \<open>old \<noteq> []\<close>
  show "((drop (j + length old) s, old, new), (s, old, new)) \<in> measure (\<lambda>(s, old, new). length s)"
    by simp
qed simp

declare ReplaceAll.simps [simp del]

text \<open>\<^verbatim>\<open>strings.Join(elems, sep)\<close>.\<close>

fun strings_Join :: "string list \<Rightarrow> string \<Rightarrow> string" where
  "strings_Join [] sep = []"
| "strings_Join [e] sep = e"
| "strings_Join (e # es) sep = e @ sep @ strings_Join es sep"

text \<open>
  \<^verbatim>\<open>strings.TrimSpace\<close> removes leading and trailing white space as \<^verbatim>\<open>unicode.IsSpace\<close>
  defines it. A white-space rune at either end of a string shows as its UTF-8
  encoding there (an invalid sequence decodes to U+FFFD, which is no space), so the
  runes are listed by their encodings: tab, LF, VT, FF, CR, space, U+0085, U+00A0,
  U+1680, U+2000 to U+200A, U+2028, U+2029, U+202F, U+205F and U+3000.
\<close>

definition spaceRunes :: "string list" where
  "spaceRunes =
     [[CHR 0x09], [CHR 0x0A], [CHR 0x0B], [CHR 0x0C], [CHR 0x0D], [CHR 0x20],
      [CHR 0xC2, CHR 0x85], [CHR 0xC2, CHR 0xA0],
      [CHR 0xE1, CHR 0x9A, CHR 0x80],
      [CHR 0xE2, CHR 0x80, CHR 0x80], [CHR 0xE2, CHR 0x80, CHR 0x81],
      [CHR 0xE2, CHR 0x80, CHR 0x82], [CHR 0xE2, CHR 0x80, CHR 0x83],
      [CHR 0xE2, CHR 0x80, CHR 0x84], [CHR 0xE2, CHR 0x80, CHR 0x85],
      [CHR 0xE2, CHR 0x80, CHR 0x86], [CHR 0xE2, CHR 0x80, CHR 0x87],
      [CHR 0xE2, CHR 0x80, CHR 0x88], [CHR 0xE2, CHR 0x80, CHR 0x89],
      [CHR 0xE2, CHR 0x80, CHR 0x8A],
      [CHR 0xE2, CHR 0x80, CHR 0xA8], [CHR 0xE2, CHR 0x80, CHR 0xA9],
      [CHR 0xE2, CHR 0x80, CHR 0xAF], [CHR 0xE2, CHR 0x81, CHR 0x9F],
      [CHR 0xE3, CHR 0x80, CHR 0x80]]"

function TrimLeftSpace :: "string \<Rightarrow> string" where
  "TrimLeftSpace s =
     (case find (HasPrefix s) spaceRunes of
        None \<Rightarrow> s
      | Some r \<Rightarrow> TrimLeftSpace (drop (length r) s))"
  by pat_completeness auto
termination
proof (relation "measure length")
  fix s r :: string
  assume "find (HasPrefix s) spaceRunes = Some r"
  then have "r \<in> set spaceRunes" and "HasPrefix s r"
    by (auto simp: find_Some_iff)
  then have "r \<noteq> []" and "length r \<le> length s"
    by (auto simp: spaceRunes_def HasPrefix_def)
  then show "(drop (length r) s, s) \<in> measure length"
    by (cases r) auto
qed simp

declare TrimLeftSpace.simps [simp del]

function TrimRightSpace :: "string \<Rightarrow> string" where
  "TrimRightSpace s =
     (case find (HasSuffix s) spaceRunes of
        None \<Rightarrow> s
      | Some r \<Rightarrow> TrimRightSpace (take (length s - length r) s))"
  by pat_completeness auto
termination
proof (relation "measure length")
  fix s r :: string
  assume "find (HasSuffix s) spaceRunes = Some r"
  then have "r \<in> set spaceRunes" and "HasSuffix s r"
    by (auto simp: find_Some_iff)
  then have "r \<noteq> []" and "length r \<le> length s"
    by (auto simp: spaceRunes_def HasSuffix_def)
  then show "(take (length s - length r) s, s) \<in> measure length"
    by (cases r) auto
qed simp

declare TrimRightSpace.simps [simp del]

definition TrimSpace :: "string \<Rightarrow> string" where
  "TrimSpace s = TrimRightSpace (TrimLeftSpace s)"

text \<open>
  \<^verbatim>\<open>strings.ToLower\<close> maps an all-ASCII string byte by byte. A string with a byte of
  \<open>0x80\<close> or more goes through \<^verbatim>\<open>strings.Map(unicode.ToLower, s)\<close>, which needs the
  Unicode case tables; that mapping is the parameter \<open>unicodeLower\<close>.
\<close>

definition isASCII :: "string \<Rightarrow> bool" where
  "isASCII s = list_all (\<lambda>c. (of_char c :: nat) < 0x80) s"

definition lowerByte :: "char \<Rightarrow> char" where
  "lowerByte c =
     (if (of_char CHR ''A'' :: nat) \<le> of_char c \<and> (of_char c :: nat) \<le> of_char CHR ''Z''
      then char_of ((of_char c :: nat) + 32) else c)"

definition ToLower :: "(string \<Rightarrow> string) \<Rightarrow> string \<Rightarrow> string" where
  "ToLower unicodeLower s = (if isASCII s then map lowerByte s else unicodeLower s)"

subsection \<open>Package bufio: a Scanner over lines\<close>

text \<open>
  \<^verbatim>\<open>bufio.NewScanner\<close> splits with \<^verbatim>\<open>ScanLines\<close>: a token is the text up to the next
  \<^verbatim>\<open>"\n"\<close> without it and without one trailing \<^verbatim>\<open>"\r"\<close>; the text after the last
  newline is a token when it is not empty. The scanner's buffer holds at most
  \<^verbatim>\<open>MaxScanTokenSize\<close> bytes: when that many bytes hold no complete line, \<^verbatim>\<open>Scan\<close>
  returns false (with \<^verbatim>\<open>ErrTooLong\<close>) and the loop over \<^verbatim>\<open>s.Scan()\<close> ends.
  \<open>scanTokens b\<close> is the list of the values of \<^verbatim>\<open>s.Text()\<close> over the calls of
  \<^verbatim>\<open>s.Scan()\<close> that return true.
\<close>

definition MaxScanTokenSize :: nat where
  "MaxScanTokenSize = 64 * 1024"

definition dropCR :: "string \<Rightarrow> string" where
  "dropCR data = (if data \<noteq> [] \<and> last data = CHR 0x0D then butlast data else data)"

function scanTokens :: "string \<Rightarrow> string list" where
  "scanTokens data =
     (if data = [] then []
      else case Index data [CHR 0x0A] of
             Some i \<Rightarrow>
               if i < MaxScanTokenSize
               then dropCR (take i data) # scanTokens (drop (i + 1) data)
               else []
           | None \<Rightarrow> if length data < MaxScanTokenSize then [dropCR data] else [])"
  by pat_completeness auto
termination
  by (relation "measure length") auto

declare scanTokens.simps [simp del]

subsection \<open>Package time: the layouts \<^verbatim>\<open>"01/2006"\<close> and \<^verbatim>\<open>"January 2006"\<close>\<close>

text \<open>
  \<^verbatim>\<open>time.Parse("01/2006", value)\<close> reads a two-digit month between 1 and 12, a slash
  and a four-digit year, and nothing after them. The day, the clock and the zone take
  their defaults (the first of the month, midnight, UTC), so the time it returns is
  its year and month.
\<close>

datatype error =
    ParseError string
  | PathError string string
  | NotRegular string
  | RelError string string
  | TemplateError string
  | Wrap string error

record time =
  Year :: nat
  Month :: nat

definition digit :: "char \<Rightarrow> bool" where
  "digit c = ((of_char CHR ''0'' :: nat) \<le> of_char c \<and> (of_char c :: nat) \<le> of_char CHR ''9'')"

definition isDigit :: "string \<Rightarrow> nat \<Rightarrow> bool" where
  "isDigit s i = (i < length s \<and> digit (s ! i))"

definition digitVal :: "char \<Rightarrow> nat" where
  "digitVal c = of_char c - of_char CHR ''0''"

text \<open>\<^verbatim>\<open>getnum(s, fixed)\<close> of package time with \<open>fixed\<close> true: exactly two digits.\<close>

definition getnum :: "string \<Rightarrow> (nat \<times> string) option" where
  "getnum s =
     (if \<not> isDigit s 0 then None
      else if \<not> isDigit s 1 then None
      else Some (digitVal (s ! 0) * 10 + digitVal (s ! 1), drop 2 s))"

text \<open>\<^verbatim>\<open>skip(value, prefix)\<close> for a prefix without spaces.\<close>

fun skip :: "string \<Rightarrow> string \<Rightarrow> string option" where
  "skip v [] = Some v"
| "skip [] (p # ps) = None"
| "skip (c # cs) (p # ps) = (if c = p then skip cs ps else None)"

text \<open>\<^verbatim>\<open>atoi\<close> on a string whose first byte is a digit: all of it must be digits.\<close>

definition decimal :: "string \<Rightarrow> nat" where
  "decimal s = foldl (\<lambda>n c. n * 10 + digitVal c) 0 s"

definition atoi :: "string \<Rightarrow> nat option" where
  "atoi s = (if s \<noteq> [] \<and> list_all digit s then Some (decimal s) else None)"

definition Parse_01_2006 :: "string \<Rightarrow> error + time" where
  "Parse_01_2006 v =
     (case getnum v of
        None \<Rightarrow> Inl (ParseError v)
      | Some (month, v1) \<Rightarrow>
          if month \<le> 0 \<or> 12 < month then Inl (ParseError ''month out of range'')
          else case skip v1 ''/'' of
            None \<Rightarrow> Inl (ParseError v1)
          | Some v2 \<Rightarrow>
              if length v2 < 4 \<or> \<not> isDigit v2 0 then Inl (ParseError v2)
              else case atoi (take 4 v2) of
                None \<Rightarrow> Inl (ParseError v2)
              | Some year \<Rightarrow>
                  if drop 4 v2 \<noteq> [] then Inl (ParseError ''extra text'')
                  else Inr \<lparr>Year = year, Month = month\<rparr>)"

definition longMonthNames :: "string list" where
  "longMonthNames =
     [''January'', ''February'', ''March'', ''April'', ''May'', ''June'', ''July'',
      ''August'', ''September'', ''October'', ''November'', ''December'']"

text \<open>\<^verbatim>\<open>appendInt(b, x, width)\<close> for \<open>x \<ge> 0\<close>: decimal digits, zero-padded to \<open>width\<close>.\<close>

function utoa :: "nat \<Rightarrow> string" where
  "utoa n = (if n < 10 then [char_of (48 + n)] else utoa (n div 10) @ [char_of (48 + n mod 10)])"
  by pat_completeness auto
termination
  by (relation "measure id") auto

declare utoa.simps [simp del]

definition appendInt :: "nat \<Rightarrow> nat \<Rightarrow> string" where
  "appendInt x width = replicate (width - length (utoa x)) CHR ''0'' @ utoa x"

text \<open>\<^verbatim>\<open>t.Format("January 2006")\<close>, for a time \<^verbatim>\<open>Parse\<close> returned (month 1 to 12).\<close>

definition Format_January_2006 :: "time \<Rightarrow> string" where
  "Format_January_2006 t = longMonthNames ! (Month t - 1) @ '' '' @ appendInt (Year t) 4"

text \<open>The path segments the date is read from: four digits, and two digits from 01 to 12.\<close>

definition fourDigitYear :: "string \<Rightarrow> bool" where
  "fourDigitYear s = (length s = 4 \<and> list_all digit s)"

definition twoDigitMonth :: "string \<Rightarrow> bool" where
  "twoDigitMonth s = (length s = 2 \<and> list_all digit s \<and> 1 \<le> decimal s \<and> decimal s \<le> 12)"

subsection \<open>Package path/filepath on Unix\<close>

text \<open>
  \<^verbatim>\<open>filepath.Clean\<close>, on the elements between slashes: empty elements and \<^verbatim>\<open>.\<close> are
  dropped, \<^verbatim>\<open>..\<close> removes the element before it when there is one to remove, is
  dropped at the root, and is kept at the start of a relative path.
\<close>

definition cleanElem :: "bool \<Rightarrow> string list \<Rightarrow> string \<Rightarrow> string list" where
  "cleanElem rooted out e =
     (if e = [] \<or> e = ''.'' then out
      else if e = ''..'' then
        (if out \<noteq> [] \<and> last out \<noteq> ''..'' then butlast out
         else if \<not> rooted then out @ [''..'']
         else out)
      else out @ [e])"

definition Clean :: "string \<Rightarrow> string" where
  "Clean path =
     (if path = [] then ''.''
      else let rooted = (hd path = CHR ''/'');
               out = foldl (cleanElem rooted) [] (Split path ''/'')
           in if rooted then CHR ''/'' # strings_Join out ''/''
              else if out = [] then ''.''
              else strings_Join out ''/'')"

text \<open>\<^verbatim>\<open>filepath.Join\<close>: leading empty elements are ignored, the rest joined and cleaned.\<close>

definition Join :: "string list \<Rightarrow> string" where
  "Join elem =
     (case dropWhile (\<lambda>e. e = []) elem of
        [] \<Rightarrow> []
      | e # es \<Rightarrow> Clean (strings_Join (e # es) ''/''))"

definition Dir :: "string \<Rightarrow> string" where
  "Dir path = Clean (rev (dropWhile (\<lambda>c. c \<noteq> CHR ''/'') (rev path)))"

definition Base :: "string \<Rightarrow> string" where
  "Base path =
     (if path = [] then ''.''
      else let p = rev (dropWhile (\<lambda>c. c = CHR ''/'') (rev path));
               e = rev (takeWhile (\<lambda>c. c \<noteq> CHR ''/'') (rev p))
           in if e = [] then ''/'' else e)"

text \<open>
  \<^verbatim>\<open>filepath.Ext\<close> walks back from the end of the path to the last dot of the last
  element; \<open>extFrom\<close> is that loop, over the reversed path.
\<close>

fun extFrom :: "string \<Rightarrow> string \<Rightarrow> string" where
  "extFrom [] acc = []"
| "extFrom (c # cs) acc =
     (if c = CHR ''/'' then []
      else if c = CHR ''.'' then c # acc
      else extFrom cs (c # acc))"

definition Ext :: "string \<Rightarrow> string" where
  "Ext path = extFrom (rev path) []"

text \<open>
  \<^verbatim>\<open>filepath.Rel\<close> compares the cleaned paths element by element. The elements of a
  cleaned path are the pieces between its slashes (the root \<^verbatim>\<open>/\<close> has the one empty
  element before its slash).
\<close>

definition pathElems :: "string \<Rightarrow> string list" where
  "pathElems p = (if p = [] then [] else if p = ''/'' then [[]] else Split p ''/'')"

fun stripCommon :: "string list \<Rightarrow> string list \<Rightarrow> string list \<times> string list" where
  "stripCommon (b # bs) (t # ts) = (if b = t then stripCommon bs ts else (b # bs, t # ts))"
| "stripCommon bs ts = (bs, ts)"

definition Rel :: "string \<Rightarrow> string \<Rightarrow> error + string" where
  "Rel basepath targpath =
     (let base = Clean basepath; targ = Clean targpath in
      if targ = base then Inr ''.''
      else let base = (if base = ''.'' then [] else base) in
        if (base \<noteq> [] \<and> hd base = CHR ''/'') \<noteq> (targ \<noteq> [] \<and> hd targ = CHR ''/'')
        then Inl (RelError targpath basepath)
        else case stripCommon (pathElems base) (pathElems targ) of
          (bs, ts) \<Rightarrow>
            if bs \<noteq> [] \<and> ts \<noteq> [] \<and> hd bs = ''..'' then Inl (RelError targpath basepath)
            else if bs \<noteq> [] then Inr (strings_Join (replicate (length bs) ''..'' @ ts) ''/'')
            else Inr (strings_Join ts ''/''))"

section \<open>The file system\<close>

text \<open>
  bloggen reads below \<^verbatim>\<open>sourceArticlesFolder\<close> and writes below \<^verbatim>\<open>destFolder\<close>, two
  separate directories. What it reads is a tree. A \<open>File\<close> is a regular file that can
  be read; \<open>Locked\<close> is a regular file that cannot be opened; \<open>LockedFolder\<close> is a
  directory that cannot be listed; \<open>Special\<close> is anything else (a socket, a device, a
  symbolic link that does not lead to a regular file). The entries of a directory
  stand in the order \<^verbatim>\<open>readDirNames\<close> returns them.
  What it writes is a map from cleaned paths to what exists there.
\<close>

datatype node =
    File string
  | Locked
  | Folder "(string \<times> node) list"
  | LockedFolder
  | Special

datatype dnode = OutFile string | OutDir

datatype logEntry = YearMonth string string | JobFailed string error

record world =
  articlesTree :: "node option"
  out :: "string \<rightharpoonup> dnode"
  stdout :: "string list"
  logged :: "logEntry list"

record fileInfo =
  Name :: string
  IsDir :: bool
  IsRegular :: bool

definition sourceArticlesFolder :: string where
  "sourceArticlesFolder = Join [''../'', ''../'', ''xbarapp.com'', ''articles'']"

definition destFolder :: string where
  "destFolder = Join [''../'', ''../'', ''xbarapp.com'', ''public'', ''docs'']"

definition infoOf :: "string \<Rightarrow> node \<Rightarrow> fileInfo" where
  "infoOf path n =
     \<lparr>Name = Base path,
      IsDir = (case n of Folder _ \<Rightarrow> True | LockedFolder \<Rightarrow> True | _ \<Rightarrow> False),
      IsRegular = (case n of File _ \<Rightarrow> True | Locked \<Rightarrow> True | _ \<Rightarrow> False)\<rparr>"

fun descend :: "node \<Rightarrow> string list \<Rightarrow> node option" where
  "descend n [] = Some n"
| "descend (Folder entries) (e # es) =
     (case map_of entries e of None \<Rightarrow> None | Some c \<Rightarrow> descend c es)"
| "descend (File v) (e # es) = None"
| "descend Locked (e # es) = None"
| "descend LockedFolder (e # es) = None"
| "descend Special (e # es) = None"

text \<open>The node a path of the source tree names (the paths \<^verbatim>\<open>filepath.Walk\<close> hands out).\<close>

definition resolve :: "world \<Rightarrow> string \<Rightarrow> node option" where
  "resolve w p =
     (case articlesTree w of
        None \<Rightarrow> None
      | Some t \<Rightarrow>
          if p = sourceArticlesFolder then Some t
          else if HasPrefix p (sourceArticlesFolder @ ''/'')
          then descend t (Split (drop (length sourceArticlesFolder + 1) p) ''/'')
          else None)"

definition Stat :: "world \<Rightarrow> string \<Rightarrow> error + fileInfo" where
  "Stat w name =
     (case resolve w name of
        None \<Rightarrow> Inl (PathError ''stat'' name)
      | Some n \<Rightarrow> Inr (infoOf name n))"

text \<open>\<^verbatim>\<open>os.Open\<close> followed by reading all of the file, and \<^verbatim>\<open>os.ReadFile\<close>.\<close>

definition ReadFile :: "world \<Rightarrow> string \<Rightarrow> error + string" where
  "ReadFile w name =
     (case resolve w name of
        Some (File content) \<Rightarrow> Inr content
      | _ \<Rightarrow> Inl (PathError ''open'' name))"

text \<open>
  \<^verbatim>\<open>os.MkdirAll\<close>: nothing to do when the path is a directory, an error when it is
  a file; otherwise the parent is made first (the path up to and with the slash
  before its last element), then the directory itself.
\<close>

definition parentOf :: "string \<Rightarrow> string" where
  "parentOf path =
     rev (dropWhile (\<lambda>c. c \<noteq> CHR ''/'') (dropWhile (\<lambda>c. c = CHR ''/'') (rev path)))"

function MkdirAll :: "string \<Rightarrow> (string \<rightharpoonup> dnode) \<Rightarrow> error + (string \<rightharpoonup> dnode)" where
  "MkdirAll path fs =
     (case fs (Clean path) of
        Some OutDir \<Rightarrow> Inr fs
      | Some (OutFile v) \<Rightarrow> Inl (PathError ''mkdir'' path)
      | None \<Rightarrow>
          if path = [] then Inl (PathError ''mkdir'' path)
          else case (if parentOf path \<noteq> [] then MkdirAll (parentOf path) fs else Inr fs) of
                 Inl e \<Rightarrow> Inl e
               | Inr fs' \<Rightarrow> Inr (fs'(Clean path \<mapsto> OutDir)))"
  by pat_completeness auto
termination
proof (relation "measure (\<lambda>(path, fs). length path)")
  fix path :: string and fs :: "string \<rightharpoonup> dnode"
  assume "path \<noteq> []"
  then obtain c cs where r: "rev path = c # cs"
    by (cases "rev path") auto
  have "length (dropWhile (\<lambda>c. c \<noteq> CHR ''/'') (dropWhile (\<lambda>c. c = CHR ''/'') (c # cs)))
          \<le> length cs"
  proof (cases "c = CHR ''/''")
    case True
    have "length (dropWhile (\<lambda>c. c \<noteq> CHR ''/'') (dropWhile (\<lambda>c. c = CHR ''/'') cs))
            \<le> length (dropWhile (\<lambda>c. c = CHR ''/'') cs)"
      by (rule length_dropWhile_le)
    also have "\<dots> \<le> length cs"
      by (rule length_dropWhile_le)
    finally show ?thesis using True by simp
  next
    case False
    then show ?thesis by (simp add: length_dropWhile_le)
  qed
  then have "length (parentOf path) < length path"
    using r by (simp add: parentOf_def)
  then show "((parentOf path, fs), (path, fs)) \<in> measure (\<lambda>(path, fs). length path)"
    by simp
qed simp

declare MkdirAll.simps [simp del]

text \<open>
  \<^verbatim>\<open>os.Create\<close> makes or truncates a file in an existing directory; the writes that
  follow (\<^verbatim>\<open>io.Copy\<close>, the template's output) are \<open>writeFile\<close>.
\<close>

definition Create :: "string \<Rightarrow> (string \<rightharpoonup> dnode) \<Rightarrow> error + (string \<rightharpoonup> dnode)" where
  "Create name fs =
     (case fs (Clean name) of
        Some OutDir \<Rightarrow> Inl (PathError ''open'' name)
      | _ \<Rightarrow>
          if fs (Dir name) = Some OutDir then Inr (fs(Clean name \<mapsto> OutFile []))
          else Inl (PathError ''open'' name))"

definition writeFile :: "string \<Rightarrow> string \<Rightarrow> (string \<rightharpoonup> dnode) \<Rightarrow> (string \<rightharpoonup> dnode)" where
  "writeFile name bytes fs = fs(Clean name \<mapsto> OutFile bytes)"

text \<open>
  \<^verbatim>\<open>filepath.Walk\<close>: the function is called for the root and then for every entry below
  it, directories before their entries; the first error it returns ends the walk (it
  never returns \<^verbatim>\<open>SkipDir\<close> here). The name in a \<^verbatim>\<open>FileInfo\<close> is the base name of the
  path.
\<close>

type_synonym 's walkFunc =
  "string \<Rightarrow> fileInfo option \<Rightarrow> error option \<Rightarrow> 's \<Rightarrow> error option \<times> 's"

fun walk :: "string \<Rightarrow> node \<Rightarrow> 's walkFunc \<Rightarrow> 's \<Rightarrow> error option \<times> 's"
  and walkNames :: "string \<Rightarrow> (string \<times> node) list \<Rightarrow> 's walkFunc \<Rightarrow> 's \<Rightarrow> error option \<times> 's"
where
  "walk path (Folder entries) walkFn s =
     (case walkFn path (Some (infoOf path (Folder entries))) None s of
        (Some e, s') \<Rightarrow> (Some e, s')
      | (None, s') \<Rightarrow> walkNames path entries walkFn s')"
| "walk path LockedFolder walkFn s =
     walkFn path (Some (infoOf path LockedFolder)) (Some (PathError ''open'' path)) s"
| "walk path (File v) walkFn s = walkFn path (Some (infoOf path (File v))) None s"
| "walk path Locked walkFn s = walkFn path (Some (infoOf path Locked)) None s"
| "walk path Special walkFn s = walkFn path (Some (infoOf path Special)) None s"
| "walkNames path [] walkFn s = (None, s)"
| "walkNames path ((name, n) # rest) walkFn s =
     (case walk (Join [path, name]) n walkFn s of
        (Some e, s') \<Rightarrow> (Some e, s')
      | (None, s') \<Rightarrow> walkNames path rest walkFn s')"

definition Walk :: "world \<Rightarrow> string \<Rightarrow> 's walkFunc \<Rightarrow> 's \<Rightarrow> error option \<times> 's" where
  "Walk w root walkFn s =
     (case resolve w root of
        None \<Rightarrow> walkFn root None (Some (PathError ''lstat'' root)) s
      | Some n \<Rightarrow> walk root n walkFn s)"

section \<open>bloggen\<close>

text \<open>
  What the tool takes from outside its own code: the category descriptors of package
  metadata, the templates (a function from the page data to the bytes written and
  the error of \<^verbatim>\<open>ExecuteTemplate\<close>, when there is one), the markdown renderer, the
  Unicode case tables, the embedded version, the wall clock as \<^verbatim>\<open>RFC822\<close> text, the
  outcome of \<^verbatim>\<open>newGenerator\<close>, and the order in which the render jobs happen to run
  (Go fixes neither the order of a map's keys nor that of goroutines; the jobs are
  taken one after another in the order \<open>schedule\<close> gives).
\<close>

typedecl category

record pagedata =
  Version :: string
  LastUpdatedFormatted :: string
  CurrentCategoryPath :: string
  Categories :: "string \<rightharpoonup> category"
  Path :: string
  ArticleTimeStr :: string
  Title :: string
  Desc :: string
  ImageURL :: string
  HTML :: string

record generator =
  template :: "pagedata \<Rightarrow> string \<times> error option"
  categories :: "string \<rightharpoonup> category"

record env =
  unicodeLower :: "string \<Rightarrow> string"
  ToHTML :: "string \<Rightarrow> string"
  version :: string
  now :: string
  newGenerator :: "error + generator"
  schedule :: "(string \<times> string) list \<Rightarrow> (string \<times> string) list"

text \<open>A call either returns or panics; a panic in any goroutine ends the process.\<close>

datatype 'a result = Panicked | Returned 'a

subsection \<open>\<^verbatim>\<open>copy\<close>\<close>

definition copy :: "string \<Rightarrow> string \<Rightarrow> world \<Rightarrow> (error + nat) \<times> world" where
  "copy dst src w =
     (case Stat w src of
        Inl e \<Rightarrow> (Inl e, w)
      | Inr sourceFileStat \<Rightarrow>
          if \<not> IsRegular sourceFileStat then (Inl (NotRegular src), w)
          else case MkdirAll (Dir dst) (out w) of
            Inl e \<Rightarrow> (Inl e, w)
          | Inr fs1 \<Rightarrow>
              (case ReadFile w src of
                 Inl e \<Rightarrow> (Inl e, w\<lparr>out := fs1\<rparr>)
               | Inr source \<Rightarrow>
                   (case Create dst fs1 of
                      Inl e \<Rightarrow> (Inl e, w\<lparr>out := fs1\<rparr>)
                    | Inr fs2 \<Rightarrow>
                        (Inr (length source), w\<lparr>out := writeFile dst source fs2\<rparr>))))"

subsection \<open>\<^verbatim>\<open>processMarkdownFile\<close>\<close>

text \<open>Lines 139 to 148: the date of the article, from the first two path segments.\<close>

definition articleTime :: "string \<Rightarrow> world \<Rightarrow> ((error + string) \<times> world) result" where
  "articleTime path w =
     (let pathSegs = Split path ''/'' in
      case at pathSegs 0 of
        None \<Rightarrow> Panicked
      | Some yearStr \<Rightarrow>
          (case at pathSegs 1 of
             None \<Rightarrow> Panicked
           | Some monthStr \<Rightarrow>
               (let w1 = w\<lparr>logged := logged w @ [YearMonth yearStr monthStr]\<rparr> in
                case Parse_01_2006 (monthStr @ ''/'' @ yearStr) of
                  Inl err \<Rightarrow> Returned (Inl (Wrap ''parse time from path'' err), w1)
                | Inr t \<Rightarrow> Returned (Inr (Format_January_2006 t), w1))))"

text \<open>
  Lines 156 to 167: the loop over the scanner's lines; \<open>None\<close> is the panic of the
  index expression, and the empty string is \<^verbatim>\<open>imagePath\<close> never assigned.
\<close>

fun findImage :: "string \<Rightarrow> string list \<Rightarrow> string option" where
  "findImage path [] = Some []"
| "findImage path (text # rest) =
     (let line = TrimSpace text in
      if HasPrefix line ''![''
      then (case at (Split line '']('') 1 of
              None \<Rightarrow> None
            | Some imagePath \<Rightarrow>
                Some (''https://xbarapp.com/docs/''
                        @ Join [Dir path, TrimSuffix imagePath '')'']))
      else findImage path rest)"

text \<open>Lines 178 to 180: the title.\<close>

definition titleOf :: "string \<Rightarrow> string option" where
  "titleOf src =
     (let title = Base src in
      case sliceTo title (int (length title) - int (length (Ext title))) of
        None \<Rightarrow> None
      | Some title \<Rightarrow> Some (ReplaceAll title ''-'' '' ''))"

text \<open>Lines 181 to 204: the value handed to the template.\<close>

definition pageData ::
  "env \<Rightarrow> generator \<Rightarrow> string \<Rightarrow> string \<Rightarrow> string \<Rightarrow> string \<Rightarrow> string \<Rightarrow> string \<Rightarrow> pagedata"
where
  "pageData ev g path articleTimeStr title firstLine imagePath html =
     \<lparr>Version = version ev,
      LastUpdatedFormatted = now ev,
      CurrentCategoryPath = [],
      Categories = categories g,
      Path = path,
      ArticleTimeStr = articleTimeStr,
      Title = title,
      Desc = firstLine,
      ImageURL = imagePath,
      HTML = html\<rparr>"

definition processMarkdownFile ::
  "env \<Rightarrow> generator \<Rightarrow> string \<Rightarrow> string \<Rightarrow> string \<Rightarrow> world \<Rightarrow> (error option \<times> world) result"
where
  "processMarkdownFile ev g path dest src w0 =
     (let w = w0\<lparr>stdout := stdout w0 @ [path]\<rparr> in
      case articleTime path w of
        Panicked \<Rightarrow> Panicked
      | Returned (Inl err, w) \<Rightarrow> Returned (Some err, w)
      | Returned (Inr articleTimeStr, w) \<Rightarrow>
          (case ReadFile w src of
             Inl err \<Rightarrow> Returned (Some err, w)
           | Inr b \<Rightarrow>
               (case at (Split b [CHR 0x0A]) 0 of
                  None \<Rightarrow> Panicked
                | Some firstLine \<Rightarrow>
                    (case findImage path (scanTokens b) of
                       None \<Rightarrow> Panicked
                     | Some imagePath \<Rightarrow>
                         (let html = ToHTML ev b in
                          case MkdirAll (Dir dest) (out w) of
                            Inl err \<Rightarrow> Returned (Some err, w)
                          | Inr fs1 \<Rightarrow>
                              (case Create dest fs1 of
                                 Inl err \<Rightarrow>
                                   Returned (Some (Wrap ''create dest'' err), w\<lparr>out := fs1\<rparr>)
                               | Inr fs2 \<Rightarrow>
                                   (case titleOf src of
                                      None \<Rightarrow> Panicked
                                    | Some title \<Rightarrow>
                                        (let pd = pageData ev g path articleTimeStr title
                                                    firstLine imagePath html;
                                             w2 = w\<lparr>out := writeFile dest (fst (template g pd)) fs2\<rparr>
                                         in case snd (template g pd) of
                                              Some err \<Rightarrow> Returned (Some (Wrap ''render'' err), w2)
                                            | None \<Rightarrow> Returned (None, w2)))))))))"

subsection \<open>\<^verbatim>\<open>run\<close>\<close>

text \<open>
  The map \<^verbatim>\<open>articles\<close> is a list of pairs with one pair for a key; \<open>setArticle\<close> is
  \<^verbatim>\<open>articles[path] = rel\<close>.
\<close>

fun setArticle :: "string \<Rightarrow> string \<Rightarrow> (string \<times> string) list \<Rightarrow> (string \<times> string) list" where
  "setArticle path rel [] = [(path, rel)]"
| "setArticle path rel ((k, v) # kvs) =
     (if k = path then (k, rel) # kvs else (k, v) # setArticle path rel kvs)"

text \<open>Lines 51 to 76: the function handed to \<^verbatim>\<open>filepath.Walk\<close>.\<close>

definition walkFn :: "(world \<times> (string \<times> string) list) walkFunc" where
  "walkFn path info err s =
     (case err of
        Some e \<Rightarrow> (Some e, s)
      | None \<Rightarrow>
          (case info of
             None \<Rightarrow> (Some (PathError ''lstat'' path), s)
           | Some info \<Rightarrow>
               if IsDir info then (None, s)
               else if HasPrefix (Name info) ''.'' then (None, s)
               else case Rel sourceArticlesFolder path of
                 Inl e \<Rightarrow> (Some e, s)
               | Inr rel \<Rightarrow>
                   (let dest = Join [destFolder, rel];
                        ext = Ext path
                    in if ext = ''.md'' then (None, (fst s, setArticle path rel (snd s)))
                       else case copy dest path (fst s) of
                         (Inl e, w') \<Rightarrow> (Some e, (w', snd s))
                       | (Inr n, w') \<Rightarrow> (None, (w', snd s)))))"

text \<open>Lines 85 to 89 of a render job: \<^verbatim>\<open>destFilename\<close> and \<^verbatim>\<open>dest\<close>.\<close>

definition destOf :: "env \<Rightarrow> string \<Rightarrow> string \<Rightarrow> (string \<times> string) option" where
  "destOf ev path rel =
     (let filename = Base path in
      case sliceTo filename (int (length filename) - 2) of
        None \<Rightarrow> None
      | Some stem \<Rightarrow>
          (let filename = ToLower (unicodeLower ev) (stem @ ''html'');
               dest = Join [destFolder, Dir rel, filename];
               destFilename = Join [Dir rel, filename]
           in Some (destFilename, dest)))"

text \<open>Lines 83 to 94: one render job.\<close>

definition job :: "env \<Rightarrow> generator \<Rightarrow> string \<Rightarrow> string \<Rightarrow> world \<Rightarrow> world result" where
  "job ev g path rel w =
     (case destOf ev path rel of
        None \<Rightarrow> Panicked
      | Some (destFilename, dest) \<Rightarrow>
          (case processMarkdownFile ev g destFilename dest path w of
             Panicked \<Rightarrow> Panicked
           | Returned (None, w') \<Rightarrow> Returned w'
           | Returned (Some err, w') \<Rightarrow>
               Returned (w'\<lparr>logged := logged w' @ [JobFailed path err]\<rparr>)))"

fun jobs :: "env \<Rightarrow> generator \<Rightarrow> (string \<times> string) list \<Rightarrow> world \<Rightarrow> world result" where
  "jobs ev g [] w = Returned w"
| "jobs ev g ((path, rel) # rest) w =
     (case job ev g path rel w of
        Panicked \<Rightarrow> Panicked
      | Returned w' \<Rightarrow> jobs ev g rest w')"

text \<open>
  The process ends with status 0 (\<^verbatim>\<open>run\<close> returned nil), with status 1 and the error
  on standard error, or by a panic.
\<close>

datatype exit = Exit0 world | Exit1 error world | Crashed

definition run :: "env \<Rightarrow> world \<Rightarrow> exit" where
  "run ev w =
     (case newGenerator ev of
        Inl err \<Rightarrow> Exit1 (Wrap ''generator'' err) w
      | Inr g \<Rightarrow>
          (case Walk w sourceArticlesFolder walkFn (w, []) of
             (Some err, (w', articles)) \<Rightarrow> Exit1 err w'
           | (None, (w', articles)) \<Rightarrow>
               (case jobs ev g (schedule ev articles) w' of
                  Panicked \<Rightarrow> Crashed
                | Returned w'' \<Rightarrow> Exit0 w'')))"

subsection \<open>The spec's words for the image text and for lines\<close>

text \<open>
  Two readings the spec gives, kept apart from the code's: the text between the
  first \<^verbatim>\<open>](\<close> of a line and the next \<^verbatim>\<open>)\<close>, and the lines of a file as the text
  between its newlines (a final newline ends the last line).
\<close>

definition textToNextParen :: "string \<Rightarrow> string option" where
  "textToNextParen line =
     (case Index line '']('' of
        None \<Rightarrow> None
      | Some i \<Rightarrow> Some (takeWhile (\<lambda>c. c \<noteq> CHR '')'') (drop (i + 2) line)))"

definition linesOf :: "string \<Rightarrow> string list" where
  "linesOf content =
     (let pieces = Split content [CHR 0x0A]
      in if last pieces = [] then butlast pieces else pieces)"

subsection \<open>Names and the paths built from them\<close>

text \<open>
  A name a directory can hold is not empty, is neither \<^verbatim>\<open>.\<close> nor \<^verbatim>\<open>..\<close>, and has no
  slash. \<open>srcPath ns\<close> is the source folder followed by the names \<open>ns\<close>, and \<open>dstPath ns\<close>
  the destination folder followed by them: the mirrored location. \<open>cleanElems\<close> says
  of a list of path elements that \<^verbatim>\<open>filepath.Clean\<close> leaves their joined path as it is.
\<close>

definition validName :: "string \<Rightarrow> bool" where
  "validName n = (n \<noteq> [] \<and> n \<noteq> ''.'' \<and> n \<noteq> ''..'' \<and> CHR ''/'' \<notin> set n)"

definition srcPath :: "string list \<Rightarrow> string" where
  "srcPath ns = strings_Join ([''..'', ''..'', ''xbarapp.com'', ''articles''] @ ns) ''/''"

definition dstPath :: "string list \<Rightarrow> string" where
  "dstPath ns = strings_Join ([''..'', ''..'', ''xbarapp.com'', ''public'', ''docs''] @ ns) ''/''"

definition cleanElems :: "string list \<Rightarrow> bool" where
  "cleanElems es =
     (es \<noteq> [] \<and> (\<forall>e\<in>set es. e \<noteq> [] \<and> CHR ''/'' \<notin> set e)
      \<and> foldl (cleanElem False) [] es = es)"

subsection \<open>Well-formed trees and the calls of a walk\<close>

text \<open>
  In a directory of a real file system the names are valid and differ from each
  other. \<open>nodesAt ns t\<close> lists the nodes of \<open>t\<close> in the order a walk meets them, each with
  the names that lead to it from the source folder (\<open>ns\<close> leads to \<open>t\<close> itself);
  \<open>visitAll\<close> is the function called for a list of nodes in turn, up to the first
  error.
\<close>

definition isFolder :: "node \<Rightarrow> bool" where
  "isFolder n = (case n of Folder _ \<Rightarrow> True | LockedFolder \<Rightarrow> True | _ \<Rightarrow> False)"

fun wfTree :: "node \<Rightarrow> bool" where
  "wfTree (Folder entries) =
     (distinct (map fst entries) \<and> (\<forall>e\<in>set entries. validName (fst e) \<and> wfTree (snd e)))"
| "wfTree (File v) = True"
| "wfTree Locked = True"
| "wfTree LockedFolder = True"
| "wfTree Special = True"

fun nodesAt :: "string list \<Rightarrow> node \<Rightarrow> (string list \<times> node) list"
  and nodesIn :: "string list \<Rightarrow> (string \<times> node) list \<Rightarrow> (string list \<times> node) list"
where
  "nodesAt ns (Folder entries) = (ns, Folder entries) # nodesIn ns entries"
| "nodesAt ns (File v) = [(ns, File v)]"
| "nodesAt ns Locked = [(ns, Locked)]"
| "nodesAt ns LockedFolder = [(ns, LockedFolder)]"
| "nodesAt ns Special = [(ns, Special)]"
| "nodesIn ns [] = []"
| "nodesIn ns ((name, n) # rest) = nodesAt (ns @ [name]) n @ nodesIn ns rest"

definition visit :: "'s walkFunc \<Rightarrow> string list \<times> node \<Rightarrow> 's \<Rightarrow> error option \<times> 's" where
  "visit f v s =
     f (srcPath (fst v)) (Some (infoOf (srcPath (fst v)) (snd v)))
       (case snd v of LockedFolder \<Rightarrow> Some (PathError ''open'' (srcPath (fst v))) | _ \<Rightarrow> None) s"

fun visitAll :: "'s walkFunc \<Rightarrow> (string list \<times> node) list \<Rightarrow> 's \<Rightarrow> error option \<times> 's" where
  "visitAll f [] s = (None, s)"
| "visitAll f (v # vs) s =
     (case visit f v s of
        (Some e, s') \<Rightarrow> (Some e, s')
      | (None, s') \<Rightarrow> visitAll f vs s')"

text \<open>
  The walk passes over a name that starts with a dot; of the others, a name with the
  extension \<^verbatim>\<open>.md\<close> is an article's and any other an asset's.
\<close>

definition dotName :: "string \<Rightarrow> bool" where
  "dotName name = HasPrefix name ''.''"

text \<open>
  A list of nodes of the tree \<open>t\<close>: each is reached by valid names, and only a
  directory stands at the root.
\<close>

definition fromTree :: "node \<Rightarrow> (string list \<times> node) list \<Rightarrow> bool" where
  "fromTree t nodes =
     (\<forall>v\<in>set nodes. (\<forall>m\<in>set (fst v). validName m) \<and> descend t (fst v) = Some (snd v)
        \<and> (fst v = [] \<longrightarrow> isFolder (snd v)))"

definition mdName :: "string \<Rightarrow> bool" where
  "mdName name = (\<not> dotName name \<and> Ext name = ''.md'')"

definition assetName :: "string \<Rightarrow> bool" where
  "assetName name = (\<not> dotName name \<and> Ext name \<noteq> ''.md'')"

subsection \<open>Example inputs\<close>

text \<open>
  A template that prints the fields of the page data, an environment around it, and
  a source tree with an article, its image, a directory and a file whose names start
  with a dot, and a file with an upper-case extension.
\<close>

definition exampleTemplate :: "pagedata \<Rightarrow> string \<times> error option" where
  "exampleTemplate pd =
     (Title pd @ ''|'' @ ArticleTimeStr pd @ ''|'' @ Desc pd @ ''|'' @ ImageURL pd
        @ ''|'' @ HTML pd, None)"

definition exampleGenerator :: generator where
  "exampleGenerator = \<lparr>template = exampleTemplate, categories = Map.empty\<rparr>"

definition exampleEnv :: env where
  "exampleEnv =
     \<lparr>unicodeLower = (\<lambda>s. s), ToHTML = (\<lambda>b. b), version = ''v2'', now = ''01 Nov 26 12:00 UTC'',
      newGenerator = Inr exampleGenerator, schedule = (\<lambda>articles. articles)\<rparr>"

definition exampleTree :: node where
  "exampleTree =
     Folder [(''2023'', Folder [(''04'', Folder
       [(''My-Post.md'', File ''first line\<newline>  ![alt](images/hero.png)\<newline>rest''),
        (''images'', Folder [(''hero.png'', File ''PNG'')]),
        (''.cache'', Folder [(''x.txt'', File ''X'')]),
        (''.hidden'', File ''h''),
        (''NOTES.MD'', File ''upper'')])])]"

definition exampleWorld :: world where
  "exampleWorld = \<lparr>articlesTree = Some exampleTree, out = Map.empty, stdout = [], logged = []\<rparr>"

text \<open>
  Two more trees: one with an article directly in the source folder beside a
  well-placed one, and one whose article has an image line without \<^verbatim>\<open>](\<close>.
\<close>

definition rootArticleWorld :: world where
  "rootArticleWorld =
     \<lparr>articlesTree = Some (Folder
        [(''2023'', Folder [(''04'', Folder [(''post.md'', File ''hello'')])]),
         (''readme.md'', File ''about this blog'')]),
      out = Map.empty, stdout = [], logged = []\<rparr>"

definition brokenImageWorld :: world where
  "brokenImageWorld =
     \<lparr>articlesTree = Some (Folder
        [(''2023'', Folder [(''04'', Folder
           [(''post.md'', File ''intro\<newline>![diagram to come\<newline>text'')])])]),
      out = Map.empty, stdout = [], logged = []\<rparr>"

text \<open>
  A tree whose month directory holds a directory named with a dot, with an article
  and a picture inside it.
\<close>

definition dotDirWorld :: world where
  "dotDirWorld =
     \<lparr>articlesTree = Some (Folder
        [(''2023'', Folder [(''04'', Folder
           [(''.drafts'', Folder [(''post.md'', File ''draft''), (''pic.png'', File ''PNG'')])])])]),
      out = Map.empty, stdout = [], logged = []\<rparr>"

section \<open>Facts about the library functions\<close>

subsection \<open>Unfolding on concrete inputs\<close>

text \<open>The defining equations, grouped for evaluating the model on concrete inputs.\<close>

lemmas strings_eval = HasPrefix_def HasSuffix_def TrimSuffix_def Split.simps ReplaceAll.simps
  at_def sliceTo_def TrimSpace_def TrimLeftSpace.simps TrimRightSpace.simps spaceRunes_def
  isASCII_def lowerByte_def ToLower_def

lemmas scan_eval = scanTokens.simps MaxScanTokenSize_def dropCR_def

lemmas time_eval = digit_def isDigit_def digitVal_def getnum_def decimal_def atoi_def
  Parse_01_2006_def longMonthNames_def utoa.simps appendInt_def Format_January_2006_def

lemmas path_eval = cleanElem_def Clean_def Join_def Dir_def Base_def Ext_def pathElems_def
  Rel_def sourceArticlesFolder_def destFolder_def

lemmas fs_eval = infoOf_def resolve_def Stat_def ReadFile_def parentOf_def MkdirAll.simps
  Create_def writeFile_def Walk_def

lemmas bloggen_eval = copy_def articleTime_def titleOf_def pageData_def processMarkdownFile_def
  walkFn_def destOf_def job_def run_def

lemmas example_eval = exampleTemplate_def exampleGenerator_def exampleEnv_def exampleTree_def
  exampleWorld_def


subsection \<open>Splitting and replacing at a single byte\<close>

lemma takeWhile_neq_all: "c \<notin> set a \<Longrightarrow> takeWhile (\<lambda>x. x \<noteq> c) a = a"
  by (induction a) auto

lemma takeWhile_neq_append:
  "c \<notin> set a \<Longrightarrow> takeWhile (\<lambda>x. x \<noteq> c) (a @ c # s) = a"
  by (induction a) auto

lemma Index_single:
  "Index s [c] = (if c \<in> set s then Some (length (takeWhile (\<lambda>x. x \<noteq> c) s)) else None)"
  by (induction s) (auto simp: HasPrefix_def)

lemma Split_single_notin:
  "c \<notin> set s \<Longrightarrow> Split s [c] = [s]"
  by (subst Split.simps) (simp add: Index_single)

lemma Split_single_Cons:
  "c \<notin> set a \<Longrightarrow> Split (a @ c # s) [c] = a # Split s [c]"
  by (subst Split.simps) (simp add: Index_single takeWhile_neq_append)

lemma Split_nonempty: "sep \<noteq> [] \<Longrightarrow> Split s sep \<noteq> []"
  by (subst Split.simps) (simp split: option.splits)

lemma at_Split_0_single:
  "at (Split b [c]) 0 = Some (takeWhile (\<lambda>x. x \<noteq> c) b)"
proof (cases "c \<in> set b")
  case True
  then obtain a s where "b = a @ c # s" "c \<notin> set a"
    by (meson split_list_first)
  then show ?thesis
    by (simp add: Split_single_Cons at_def takeWhile_neq_append)
next
  case False
  then show ?thesis
    by (simp add: Split_single_notin at_def takeWhile_neq_all)
qed

lemma map_replace_notin: "a \<notin> set p \<Longrightarrow> map (\<lambda>c. if c = a then b else c) p = p"
  by (induction p) auto

lemma ReplaceAll_single:
  "a \<noteq> b \<Longrightarrow> ReplaceAll s [a] [b] = map (\<lambda>c. if c = a then b else c) s"
proof (induction "length s" arbitrary: s rule: less_induct)
  case less
  show ?case
  proof (cases "a \<in> set s")
    case False
    with less.prems show ?thesis
      by (subst ReplaceAll.simps) (simp add: Index_single map_replace_notin)
  next
    case True
    then obtain p t where s: "s = p @ a # t" and p: "a \<notin> set p"
      by (meson split_list_first)
    have "ReplaceAll t [a] [b] = map (\<lambda>c. if c = a then b else c) t"
      using less.hyps[of t] less.prems s by simp
    then show ?thesis
      using less.prems s p
      by (subst ReplaceAll.simps) (simp add: Index_single takeWhile_neq_append map_replace_notin)
  qed
qed

subsection \<open>The first instance of a separator\<close>

lemma HasPrefix_Nil [simp]: "HasPrefix s []"
  by (simp add: HasPrefix_def)

lemma Index_Some_iff:
  "sep \<noteq> [] \<Longrightarrow>
   Index s sep = Some i \<longleftrightarrow>
     (HasPrefix (drop i s) sep \<and> (\<forall>j<i. \<not> HasPrefix (drop j s) sep))"
proof (induction s arbitrary: i)
  case Nil
  then show ?case by (auto simp: HasPrefix_def)
next
  case (Cons c cs)
  show ?case
  proof (cases "HasPrefix (c # cs) sep")
    case True
    then show ?thesis
      by (cases i) (auto simp: Cons.prems)
  next
    case False
    show ?thesis
    proof (cases i)
      case 0
      with False show ?thesis by simp
    next
      case (Suc k)
      have "(\<forall>j<Suc k. \<not> HasPrefix (drop j (c # cs)) sep) \<longleftrightarrow> (\<forall>j<k. \<not> HasPrefix (drop j cs) sep)"
        using False by (auto simp: less_Suc_eq_0_disj)
      with False Suc Cons.IH[OF Cons.prems, of k] show ?thesis
        by auto
    qed
  qed
qed

lemma Index_None_iff:
  "sep \<noteq> [] \<Longrightarrow> Index s sep = None \<longleftrightarrow> (\<forall>j. \<not> HasPrefix (drop j s) sep)"
proof (induction s)
  case Nil
  then show ?case by (auto simp: HasPrefix_def)
next
  case (Cons c cs)
  have "(\<forall>j. \<not> HasPrefix (drop j (c # cs)) sep)
        \<longleftrightarrow> (\<not> HasPrefix (c # cs) sep \<and> (\<forall>j. \<not> HasPrefix (drop j cs) sep))"
    (is "?L \<longleftrightarrow> ?R")
  proof
    assume l: ?L
    from l[rule_format, of 0] l[rule_format, of "Suc _"] show ?R by simp
  next
    assume r: ?R
    show ?L
    proof
      fix j show "\<not> HasPrefix (drop j (c # cs)) sep"
        using r by (cases j) auto
    qed
  qed
  with Cons show ?case by auto
qed

lemma Index_bound: "Index s sep = Some i \<Longrightarrow> i + length sep \<le> length s"
proof (induction s arbitrary: i)
  case Nil
  then show ?case by (auto split: if_splits)
next
  case (Cons c cs)
  then show ?case
    by (auto simp: HasPrefix_def split: if_splits)
qed

lemma at_Split_1:
  assumes "sep \<noteq> []" and "Index s sep = Some i"
  shows "at (Split s sep) 1
           = Some (case Index (drop (i + length sep) s) sep of
                     None \<Rightarrow> drop (i + length sep) s
                   | Some k \<Rightarrow> take k (drop (i + length sep) s))"
proof -
  have "Split s sep = take i s # Split (drop (i + length sep) s) sep"
    using assms by (subst Split.simps) simp
  moreover have "Split (drop (i + length sep) s) sep
      = (case Index (drop (i + length sep) s) sep of
           None \<Rightarrow> [drop (i + length sep) s]
         | Some k \<Rightarrow> take k (drop (i + length sep) s)
                      # Split (drop (k + length sep) (drop (i + length sep) s)) sep)"
    using assms(1) by (subst Split.simps) simp
  ultimately show ?thesis
    by (simp add: at_def split: option.splits)
qed

lemma at_Split_1_None:
  assumes "sep \<noteq> []" and "Index s sep = None"
  shows "at (Split s sep) 1 = None"
  using assms by (subst Split.simps) (simp add: at_def)

lemma HasPrefix_iff: "HasPrefix s p \<longleftrightarrow> (\<exists>t. s = p @ t)"
proof
  assume "HasPrefix s p"
  then have "s = p @ drop (length p) s"
    by (metis HasPrefix_def append_take_drop_id)
  then show "\<exists>t. s = p @ t" ..
next
  assume "\<exists>t. s = p @ t"
  then show "HasPrefix s p"
    by (auto simp: HasPrefix_def)
qed

lemma occurs_iff:
  "(\<exists>j. HasPrefix (drop j s) sep) \<longleftrightarrow> (\<exists>pre post. s = pre @ sep @ post)"
proof
  assume "\<exists>j. HasPrefix (drop j s) sep"
  then obtain j t where "drop j s = sep @ t"
    by (auto simp: HasPrefix_iff)
  then have "s = take j s @ sep @ t"
    by (metis append_take_drop_id)
  then show "\<exists>pre post. s = pre @ sep @ post" by blast
next
  assume "\<exists>pre post. s = pre @ sep @ post"
  then obtain pre post where "s = pre @ sep @ post" by blast
  then have "HasPrefix (drop (length pre) s) sep"
    by (simp add: HasPrefix_iff)
  then show "\<exists>j. HasPrefix (drop j s) sep" ..
qed

lemma Index_None_occurs:
  "sep \<noteq> [] \<Longrightarrow> Index s sep = None \<longleftrightarrow> (\<nexists>pre post. s = pre @ sep @ post)"
  using occurs_iff[of s sep] by (auto simp add: Index_None_iff)

lemma Index_snoc_paren:
  assumes "Index url '']('' = None"
  shows "Index (url @ '')'') '']('' = None"
proof -
  have "\<nexists>pre post. url @ '')'' = pre @ '']('' @ post"
  proof
    assume "\<exists>pre post. url @ '')'' = pre @ '']('' @ post"
    then obtain pre post where e: "url @ '')'' = pre @ '']('' @ post" by blast
    show False
    proof (cases post rule: rev_cases)
      case Nil
      with e have "url @ '')'' = (pre @ '']'') @ ''(''" by simp
      then show False by (simp only: append1_eq_conv) simp
    next
      case (snoc post' x)
      with e have "url @ '')'' = (pre @ '']('' @ post') @ [x]" by simp
      then have "url = pre @ '']('' @ post'" by (simp only: append1_eq_conv)
      with assms show False
        by (simp add: Index_None_occurs) blast
    qed
  qed
  then show ?thesis by (simp add: Index_None_occurs)
qed


subsection \<open>Joined paths\<close>

lemma strings_Join_snoc:
  "es \<noteq> [] \<Longrightarrow> strings_Join (es @ [n]) sep = strings_Join es sep @ sep @ n"
  by (induction es sep rule: strings_Join.induct) auto

lemma strings_Join_Cons:
  "es \<noteq> [] \<Longrightarrow> strings_Join (e # es) sep = e @ sep @ strings_Join es sep"
  by (cases es) auto

lemma strings_Join_append:
  "es \<noteq> [] \<Longrightarrow> fs \<noteq> [] \<Longrightarrow>
   strings_Join (es @ fs) sep = strings_Join es sep @ sep @ strings_Join fs sep"
  by (induction es sep rule: strings_Join.induct) (auto simp: strings_Join_Cons)

lemma Split_strings_Join:
  "es \<noteq> [] \<Longrightarrow> \<forall>e\<in>set es. c \<notin> set e \<Longrightarrow> Split (strings_Join es [c]) [c] = es"
proof (induction es "[c]" rule: strings_Join.induct)
  case 1
  then show ?case by simp
next
  case (2 e)
  then show ?case by (simp add: Split_single_notin)
next
  case (3 e v va)
  then show ?case
    using Split_single_Cons[of c e "strings_Join (v # va) [c]"] by simp
qed

lemma foldl_cleanElem_valid:
  "\<forall>n\<in>set ns. validName n \<Longrightarrow> foldl (cleanElem r) acc ns = acc @ ns"
  by (induction ns arbitrary: acc) (auto simp: cleanElem_def validName_def)

lemma strings_Join_hd:
  "es \<noteq> [] \<Longrightarrow> hd es \<noteq> [] \<Longrightarrow> strings_Join es sep \<noteq> [] \<and> hd (strings_Join es sep) = hd (hd es)"
  by (induction es sep rule: strings_Join.induct) auto

lemma Clean_strings_Join:
  assumes "cleanElems es"
  shows "Clean (strings_Join es ''/'') = strings_Join es ''/''"
proof -
  from assms have ne: "es \<noteq> []" and el: "\<forall>e\<in>set es. e \<noteq> [] \<and> CHR ''/'' \<notin> set e"
    and f: "foldl (cleanElem False) [] es = es"
    by (auto simp: cleanElems_def)
  from ne el have "hd es \<noteq> []" "CHR ''/'' \<notin> set (hd es)"
    by (cases es; simp)+
  with ne have h: "strings_Join es ''/'' \<noteq> []" "hd (strings_Join es ''/'') \<noteq> CHR ''/''"
    using strings_Join_hd[of es "''/''"] by (auto simp: neq_Nil_conv)
  from ne el have "Split (strings_Join es ''/'') ''/'' = es"
    by (simp add: Split_strings_Join)
  with h f ne show ?thesis
    by (simp add: Clean_def Let_def)
qed

lemma cleanElems_append:
  assumes "cleanElems es" and "\<forall>n\<in>set ns. validName n"
  shows "cleanElems (es @ ns)"
  using assms by (auto simp: cleanElems_def foldl_cleanElem_valid validName_def)

lemma cleanElems_valid:
  "ns \<noteq> [] \<Longrightarrow> \<forall>n\<in>set ns. validName n \<Longrightarrow> cleanElems ns"
  by (auto simp: cleanElems_def foldl_cleanElem_valid validName_def)

lemma cleanElems_src: "cleanElems [''..'', ''..'', ''xbarapp.com'', ''articles'']"
  by (simp add: cleanElems_def cleanElem_def)

lemma cleanElems_dst: "cleanElems [''..'', ''..'', ''xbarapp.com'', ''public'', ''docs'']"
  by (simp add: cleanElems_def cleanElem_def)

lemma sourceArticlesFolder_eq: "sourceArticlesFolder = srcPath []"
  by (simp add: strings_eval path_eval srcPath_def Let_def)

lemma destFolder_eq: "destFolder = dstPath []"
  by (simp add: strings_eval path_eval dstPath_def Let_def)

lemma Clean_srcPath: "\<forall>n\<in>set ns. validName n \<Longrightarrow> Clean (srcPath ns) = srcPath ns"
  unfolding srcPath_def
  by (intro Clean_strings_Join cleanElems_append cleanElems_src)

lemma Clean_dstPath: "\<forall>n\<in>set ns. validName n \<Longrightarrow> Clean (dstPath ns) = dstPath ns"
  unfolding dstPath_def
  by (intro Clean_strings_Join cleanElems_append cleanElems_dst)

lemma srcPath_snoc: "srcPath (ns @ [n]) = srcPath ns @ ''/'' @ n"
  using strings_Join_snoc[of "[''..'', ''..'', ''xbarapp.com'', ''articles''] @ ns" n "''/''"]
  by (simp add: srcPath_def)

lemma dstPath_snoc: "dstPath (ns @ [n]) = dstPath ns @ ''/'' @ n"
  using strings_Join_snoc[of "[''..'', ''..'', ''xbarapp.com'', ''public'', ''docs''] @ ns" n "''/''"]
  by (simp add: dstPath_def)

lemma srcPath_ne: "srcPath ns \<noteq> []"
  by (simp add: srcPath_def)

lemma Join_srcPath:
  assumes "\<forall>n\<in>set ns. validName n" and "validName n"
  shows "Join [srcPath ns, n] = srcPath (ns @ [n])"
proof -
  have "Join [srcPath ns, n] = Clean (srcPath ns @ ''/'' @ n)"
    using srcPath_ne[of ns] by (simp add: Join_def)
  also have "\<dots> = Clean (srcPath (ns @ [n]))"
    by (simp add: srcPath_snoc)
  also have "\<dots> = srcPath (ns @ [n])"
    using assms by (intro Clean_srcPath) auto
  finally show ?thesis .
qed

lemma stripCommon_prefix: "stripCommon xs (xs @ ys) = ([], ys)"
  by (induction xs) simp_all

lemma srcPath_Cons_ne: "ns \<noteq> [] \<Longrightarrow> srcPath ns = srcPath [] @ ''/'' @ strings_Join ns ''/''"
  using strings_Join_append[of "[''..'', ''..'', ''xbarapp.com'', ''articles'']" ns "''/''"]
  by (simp add: srcPath_def)

lemma dstPath_Cons_ne: "ns \<noteq> [] \<Longrightarrow> dstPath ns = dstPath [] @ ''/'' @ strings_Join ns ''/''"
  using strings_Join_append[of "[''..'', ''..'', ''xbarapp.com'', ''public'', ''docs'']" ns "''/''"]
  by (simp add: dstPath_def)

lemma validName_no_slash: "\<forall>n\<in>set ns. validName n \<Longrightarrow> \<forall>e\<in>set ns. CHR ''/'' \<notin> set e"
  by (simp add: validName_def)

lemma Split_srcPath:
  "\<forall>n\<in>set ns. validName n \<Longrightarrow>
   Split (srcPath ns) ''/'' = [''..'', ''..'', ''xbarapp.com'', ''articles''] @ ns"
  unfolding srcPath_def
  by (rule Split_strings_Join) (auto simp: validName_def)

lemma Split_dstPath:
  "\<forall>n\<in>set ns. validName n \<Longrightarrow>
   Split (dstPath ns) ''/'' = [''..'', ''..'', ''xbarapp.com'', ''public'', ''docs''] @ ns"
  unfolding dstPath_def
  by (rule Split_strings_Join) (auto simp: validName_def)

lemma srcPath_inj:
  assumes "\<forall>n\<in>set ns. validName n" and "\<forall>n\<in>set ms. validName n" and "srcPath ns = srcPath ms"
  shows "ns = ms"
proof -
  from assms(3) have "Split (srcPath ns) ''/'' = Split (srcPath ms) ''/''"
    by (rule arg_cong)
  then show ?thesis
    unfolding Split_srcPath[OF assms(1)] Split_srcPath[OF assms(2)] by (rule same_append_eq[THEN iffD1])
qed

lemma dstPath_inj:
  assumes "\<forall>n\<in>set ns. validName n" and "\<forall>n\<in>set ms. validName n" and "dstPath ns = dstPath ms"
  shows "ns = ms"
proof -
  from assms(3) have "Split (dstPath ns) ''/'' = Split (dstPath ms) ''/''"
    by (rule arg_cong)
  then show ?thesis
    unfolding Split_dstPath[OF assms(1)] Split_dstPath[OF assms(2)] by (rule same_append_eq[THEN iffD1])
qed

lemma Rel_srcPath:
  assumes "ns \<noteq> []" and "\<forall>n\<in>set ns. validName n"
  shows "Rel sourceArticlesFolder (srcPath ns) = Inr (strings_Join ns ''/'')"
proof -
  have c1: "Clean (srcPath []) = srcPath []"
    by (rule Clean_srcPath) simp
  have c2: "Clean (srcPath ns) = srcPath ns"
    using assms(2) by (rule Clean_srcPath)
  have ne: "srcPath ns \<noteq> srcPath []"
    using srcPath_inj[of ns "[]"] assms by auto
  have hd1: "srcPath [] \<noteq> [] \<and> hd (srcPath []) = CHR ''.'' \<and> srcPath [] \<noteq> ''.'' \<and> srcPath [] \<noteq> ''/''"
    by (simp add: srcPath_def)
  have hd2: "srcPath ns \<noteq> [] \<and> hd (srcPath ns) = CHR ''.'' \<and> srcPath ns \<noteq> ''/''"
    using strings_Join_hd[of "[''..'', ''..'', ''xbarapp.com'', ''articles''] @ ns" "''/''"]
    by (auto simp: srcPath_def)
  have e1: "pathElems (srcPath []) = [''..'', ''..'', ''xbarapp.com'', ''articles'']"
    using hd1 Split_srcPath[of "[]"] by (simp add: pathElems_def)
  have e2: "pathElems (srcPath ns) = [''..'', ''..'', ''xbarapp.com'', ''articles''] @ ns"
    using hd2 Split_srcPath[OF assms(2)] by (simp add: pathElems_def)
  have "stripCommon (pathElems (srcPath [])) (pathElems (srcPath ns)) = ([], ns)"
    unfolding e1 e2 by (rule stripCommon_prefix)
  with c1 c2 ne hd1 hd2 show ?thesis
    by (simp add: Rel_def sourceArticlesFolder_eq Let_def)
qed

lemma Join_destFolder:
  assumes "ns \<noteq> []" and "\<forall>n\<in>set ns. validName n"
  shows "Join [destFolder, strings_Join ns ''/''] = dstPath ns"
proof -
  have "destFolder \<noteq> []"
    by (simp add: destFolder_eq dstPath_def)
  then have "Join [destFolder, strings_Join ns ''/'']
      = Clean (dstPath [] @ ''/'' @ strings_Join ns ''/'')"
    by (simp add: Join_def destFolder_eq)
  also have "\<dots> = Clean (dstPath ns)"
    using assms(1) by (simp add: dstPath_Cons_ne)
  also have "\<dots> = dstPath ns"
    using assms(2) by (rule Clean_dstPath)
  finally show ?thesis .
qed

lemma Base_slash_name:
  assumes "n \<noteq> []" and "CHR ''/'' \<notin> set n"
  shows "Base (q @ CHR ''/'' # n) = n"
proof -
  from assms obtain c cs where r: "rev n = c # cs" and c: "c \<noteq> CHR ''/''"
    by (cases n rule: rev_cases) auto
  have "dropWhile (\<lambda>c. c = CHR ''/'') (rev (q @ CHR ''/'' # n)) = rev (q @ CHR ''/'' # n)"
    using r c by simp
  moreover have "takeWhile (\<lambda>c. c \<noteq> CHR ''/'') (rev (q @ CHR ''/'' # n)) = rev n"
    using assms(2) takeWhile_neq_append[of "CHR ''/''" "rev n" "rev q"] by simp
  ultimately show ?thesis
    using assms(1) by (simp add: Base_def Let_def del: rev_append)
qed

lemma Base_name:
  assumes "n \<noteq> []" and "CHR ''/'' \<notin> set n"
  shows "Base n = n"
proof -
  from assms obtain c cs where r: "rev n = c # cs" and c: "c \<noteq> CHR ''/''"
    by (cases n rule: rev_cases) auto
  have d: "dropWhile (\<lambda>c. c = CHR ''/'') (rev n) = rev n"
    using r c by simp
  have t: "takeWhile (\<lambda>c. c \<noteq> CHR ''/'') (rev n) = rev n"
    using assms(2) by (intro takeWhile_neq_all) simp
  show ?thesis
    using assms(1) by (simp add: Base_def Let_def d t)
qed

lemma extFrom_slash:
  "CHR ''/'' \<notin> set cs \<Longrightarrow> extFrom (cs @ CHR ''/'' # rest) acc = extFrom cs acc"
  by (induction cs arbitrary: acc) auto

lemma Ext_slash_name: "CHR ''/'' \<notin> set n \<Longrightarrow> Ext (q @ CHR ''/'' # n) = Ext n"
  using extFrom_slash[of "rev n" "rev q" "[]"] by (simp add: Ext_def)

lemma Base_srcPath:
  assumes "\<forall>n\<in>set ns. validName n" and "ns \<noteq> []"
  shows "Base (srcPath ns) = last ns" and "Ext (srcPath ns) = Ext (last ns)"
proof -
  from assms(2) obtain ms n where ns: "ns = ms @ [n]"
    by (cases ns rule: rev_cases) auto
  with assms(1) have n: "n \<noteq> []" "CHR ''/'' \<notin> set n"
    by (auto simp: validName_def)
  then show "Base (srcPath ns) = last ns" and "Ext (srcPath ns) = Ext (last ns)"
    using ns by (simp_all add: srcPath_snoc Base_slash_name Ext_slash_name)
qed

lemma Clean_elems:
  assumes "es \<noteq> []" and "hd es \<noteq> []" and "\<forall>e\<in>set es. CHR ''/'' \<notin> set e"
    and "foldl (cleanElem False) [] es = acc" and "acc \<noteq> []"
  shows "Clean (strings_Join es ''/'') = strings_Join acc ''/''"
proof -
  from assms(1,3) have "CHR ''/'' \<notin> set (hd es)"
    by (cases es) simp_all
  with assms(1,2) have h: "strings_Join es ''/'' \<noteq> []" "hd (strings_Join es ''/'') \<noteq> CHR ''/''"
    using strings_Join_hd[of es "''/''"] by (auto simp: neq_Nil_conv)
  from assms(1,3) have "Split (strings_Join es ''/'') ''/'' = es"
    by (simp add: Split_strings_Join)
  with h assms(4,5) show ?thesis
    by (simp add: Clean_def Let_def)
qed

lemma Dir_strings_Join:
  assumes "\<forall>n\<in>set ds. validName n" and "CHR ''/'' \<notin> set name"
  shows "Dir (strings_Join (ds @ [name]) ''/'')
           = (if ds = [] then ''.'' else strings_Join ds ''/'')"
proof (cases "ds = []")
  case True
  have "dropWhile (\<lambda>c. c \<noteq> CHR ''/'') (rev name) = []"
    using assms(2) by auto
  with True show ?thesis
    by (simp add: Dir_def Clean_def)
next
  case False
  have j: "strings_Join (ds @ [name]) ''/'' = strings_Join ds ''/'' @ CHR ''/'' # name"
    using False by (simp add: strings_Join_snoc)
  have "dropWhile (\<lambda>c. c \<noteq> CHR ''/'') (rev name @ CHR ''/'' # rev (strings_Join ds ''/''))
          = CHR ''/'' # rev (strings_Join ds ''/'')"
    using assms(2) by (subst dropWhile_append2) auto
  then have d: "Dir (strings_Join (ds @ [name]) ''/'') = Clean (strings_Join ds ''/'' @ ''/'')"
    by (simp add: Dir_def j)
  have e: "strings_Join ds ''/'' @ ''/'' = strings_Join (ds @ [[]]) ''/''"
    using False by (simp add: strings_Join_snoc)
  have f: "foldl (cleanElem False) [] (ds @ [[]]) = ds"
    using assms(1) by (simp add: foldl_cleanElem_valid cleanElem_def)
  have "hd (ds @ [[]]) \<noteq> []"
    using False assms(1) by (cases ds) (auto simp: validName_def)
  moreover have "\<forall>e\<in>set (ds @ [[]]). CHR ''/'' \<notin> set e"
    using assms(1) by (auto simp: validName_def)
  ultimately have "Clean (strings_Join (ds @ [[]]) ''/'') = strings_Join ds ''/''"
    using False f by (intro Clean_elems) auto
  with d e False show ?thesis by simp
qed

lemma Join_Dir_name:
  assumes "\<forall>n\<in>set ds. validName n" and "CHR ''/'' \<notin> set name" and "validName l"
  shows "Join [Dir (strings_Join (ds @ [name]) ''/''), l] = strings_Join (ds @ [l]) ''/''"
proof (cases "ds = []")
  case True
  have "Clean (strings_Join [''.'', l] ''/'') = strings_Join [l] ''/''"
    using assms(3) by (intro Clean_elems) (auto simp: cleanElem_def validName_def)
  moreover have "Dir name = ''.''"
    using Dir_strings_Join[of "[]" name] assms(2) by simp
  ultimately show ?thesis
    using True by (simp add: Join_def)
next
  case False
  then have ne: "strings_Join ds ''/'' \<noteq> []"
    using assms(1) strings_Join_hd[of ds "''/''"] by (cases ds) (auto simp: validName_def)
  have "Clean (strings_Join (ds @ [l]) ''/'') = strings_Join (ds @ [l]) ''/''"
    using assms(1,3) by (intro Clean_strings_Join cleanElems_valid) auto
  moreover have dd: "Dir (strings_Join (ds @ [name]) ''/'') = strings_Join ds ''/''"
    using False assms(1,2) by (simp add: Dir_strings_Join)
  moreover have "l \<noteq> []"
    using assms(3) by (simp add: validName_def)
  ultimately show ?thesis
    unfolding dd using False ne by (simp add: Join_def strings_Join_snoc)
qed

lemma Join_destFolder_Dir_name:
  assumes "\<forall>n\<in>set ds. validName n" and "CHR ''/'' \<notin> set name" and "validName l"
  shows "Join [destFolder, Dir (strings_Join (ds @ [name]) ''/''), l] = dstPath (ds @ [l])"
proof -
  have dne: "destFolder \<noteq> []"
    by (simp add: destFolder_eq dstPath_def)
  show ?thesis
  proof (cases "ds = []")
    case True
    have "Clean (strings_Join ([''..'', ''..'', ''xbarapp.com'', ''public'', ''docs''] @ [''.'', l]) ''/'')
        = strings_Join ([''..'', ''..'', ''xbarapp.com'', ''public'', ''docs''] @ [l]) ''/''"
      using assms(3) by (intro Clean_elems) (auto simp: cleanElem_def validName_def)
    moreover have "Dir name = ''.''"
      using Dir_strings_Join[of "[]" name] assms(2) by simp
    ultimately show ?thesis
      using True dne by (simp add: Join_def destFolder_eq dstPath_def)
  next
    case False
    have v: "\<forall>n\<in>set (ds @ [l]). validName n"
      using assms(1,3) by auto
    have "Join [destFolder, strings_Join ds ''/'', l]
        = Clean (dstPath [] @ ''/'' @ strings_Join (ds @ [l]) ''/'')"
      using dne False by (simp add: Join_def destFolder_eq strings_Join_snoc)
    also have "\<dots> = Clean (dstPath (ds @ [l]))"
      by (simp add: dstPath_Cons_ne)
    also have "\<dots> = dstPath (ds @ [l])"
      using v by (rule Clean_dstPath)
    finally have j: "Join [destFolder, strings_Join ds ''/'', l] = dstPath (ds @ [l])" .
    have dd: "Dir (strings_Join (ds @ [name]) ''/'') = strings_Join ds ''/''"
      using False assms(1,2) by (simp add: Dir_strings_Join)
    show ?thesis
      unfolding dd by (rule j)
  qed
qed

lemma lowerByte_slash: "lowerByte c = CHR ''/'' \<longleftrightarrow> c = CHR ''/''"
proof -
  have "char_of (of_char c + 32 :: nat) \<noteq> CHR ''/''"
    if "(65 :: nat) \<le> of_char c" "(of_char c :: nat) \<le> 90"
  proof
    assume "char_of (of_char c + 32 :: nat) = CHR ''/''"
    then have "(of_char (char_of (of_char c + 32 :: nat)) :: nat) = of_char CHR ''/''"
      by simp
    with that show False by (simp add: of_char_of)
  qed
  then show ?thesis
    by (auto simp: lowerByte_def)
qed

lemma ToLower_html:
  assumes "isASCII stem"
  shows "ToLower f (stem @ ''.html'') = map lowerByte stem @ ''.html''"
  using assms by (simp add: ToLower_def isASCII_def lowerByte_def)

lemma validName_lowered:
  assumes "CHR ''/'' \<notin> set stem"
  shows "validName (map lowerByte stem @ ''.html'')"
proof -
  have "CHR ''/'' \<notin> lowerByte ` set stem"
  proof
    assume "CHR ''/'' \<in> lowerByte ` set stem"
    then obtain x where x: "x \<in> set stem" and "CHR ''/'' = lowerByte x"
      by (rule imageE)
    then have "lowerByte x = CHR ''/''" by simp
    then have "x = CHR ''/''" by (simp only: lowerByte_slash)
    with x assms show False by simp
  qed
  moreover have "map lowerByte stem @ ''.html'' \<noteq> ''.''" "map lowerByte stem @ ''.html'' \<noteq> ''..''"
    by (auto dest!: arg_cong[where f = length])
  ultimately show ?thesis
    by (simp add: validName_def)
qed

subsection \<open>Decimal digits\<close>

lemma digit_char_of: "digit c \<Longrightarrow> char_of (48 + digitVal c) = c"
  unfolding digit_def digitVal_def by simp

lemma digitVal_lt: "digit c \<Longrightarrow> digitVal c < 10"
  unfolding digit_def digitVal_def by simp arith

lemma decimal_snoc: "decimal (ds @ [c]) = decimal ds * 10 + digitVal c"
  by (simp add: decimal_def)

lemma utoa_small: "n < 10 \<Longrightarrow> utoa n = [char_of (48 + n)]"
  by (subst utoa.simps) simp

lemma utoa_0: "utoa 0 = ''0''"
  by code_simp

lemma utoa_step: "0 < n \<Longrightarrow> d < 10 \<Longrightarrow> utoa (n * 10 + d) = utoa n @ [char_of (48 + d)]"
  by (subst utoa.simps) simp

lemma appendInt_decimal:
  "ds \<noteq> [] \<Longrightarrow> list_all digit ds \<Longrightarrow> appendInt (decimal ds) (length ds) = ds"
proof (induction ds rule: rev_induct)
  case Nil
  then show ?case by simp
next
  case (snoc c ds)
  then have c: "digit c" and ds: "list_all digit ds" by simp_all
  show ?case
  proof (cases "ds = []")
    case True
    with c show ?thesis
      by (simp add: appendInt_def decimal_def utoa_small digitVal_lt digit_char_of)
  next
    case False
    with snoc ds have IH: "appendInt (decimal ds) (length ds) = ds" by simp
    show ?thesis
    proof (cases "decimal ds = 0")
      case True
      with IH have "ds = replicate (length ds - 1) CHR ''0'' @ ''0''"
        by (simp add: appendInt_def utoa_0)
      moreover from False have "replicate (length ds - 1) CHR ''0'' @ ''0'' = replicate (length ds) CHR ''0''"
        by (cases ds) (simp_all add: replicate_append_same)
      ultimately have "ds = replicate (length ds) CHR ''0''" by simp
      then have "ds @ [c] = replicate (length ds) CHR ''0'' @ [c]" by simp
      with True c show ?thesis
        by (simp add: appendInt_def decimal_snoc utoa_small digitVal_lt digit_char_of)
    next
      case nz: False
      have le: "length (utoa (decimal ds)) \<le> length ds"
      proof (rule ccontr)
        assume "\<not> ?thesis"
        then have "appendInt (decimal ds) (length ds) = utoa (decimal ds)"
          by (simp add: appendInt_def)
        with IH \<open>\<not> ?thesis\<close> show False by simp
      qed
      from nz c have "utoa (decimal (ds @ [c])) = utoa (decimal ds) @ [c]"
        by (simp add: decimal_snoc utoa_step digitVal_lt digit_char_of)
      with IH le show ?thesis
        by (simp add: appendInt_def Suc_diff_le)
    qed
  qed
qed

subsection \<open>Parsing and formatting the date\<close>

lemma length2E: "length s = 2 \<Longrightarrow> (\<And>a b. s = [a, b] \<Longrightarrow> P) \<Longrightarrow> P"
  by (cases s; cases "tl s") auto

lemma Parse_01_2006_ok:
  assumes "fourDigitYear y" and "twoDigitMonth m"
  shows "Parse_01_2006 (m @ CHR ''/'' # y) = Inr \<lparr>Year = decimal y, Month = decimal m\<rparr>"
proof -
  from assms(2) obtain a b where m: "m = [a, b]"
    by (auto simp: twoDigitMonth_def elim: length2E)
  from assms(2) m have ab: "digit a" "digit b" "1 \<le> digitVal a * 10 + digitVal b" "digitVal a * 10 + digitVal b \<le> 12"
    by (simp_all add: twoDigitMonth_def decimal_def)
  from assms(1) have y: "length y = 4" "list_all digit y" "y \<noteq> []" "digit (y ! 0)"
    by (auto simp: fourDigitYear_def list_all_length)
  have "getnum (m @ CHR ''/'' # y) = Some (decimal m, CHR ''/'' # y)"
    using m ab by (simp add: getnum_def isDigit_def decimal_def)
  then show ?thesis
    using ab m y by (auto simp add: Parse_01_2006_def isDigit_def atoi_def decimal_def)
qed

lemma Format_January_2006_year:
  "fourDigitYear y \<Longrightarrow>
   Format_January_2006 \<lparr>Year = decimal y, Month = k\<rparr> = longMonthNames ! (k - 1) @ '' '' @ y"
  using appendInt_decimal[of y]
  by (cases y) (auto simp: Format_January_2006_def fourDigitYear_def)

lemma articleTime_ok:
  assumes "Split path ''/'' = yearStr # monthStr # rest"
    and "fourDigitYear yearStr" and "twoDigitMonth monthStr"
  shows "articleTime path w =
      Returned (Inr (longMonthNames ! (decimal monthStr - 1) @ '' '' @ yearStr),
                w\<lparr>logged := logged w @ [YearMonth yearStr monthStr]\<rparr>)"
  using assms Parse_01_2006_ok[of yearStr monthStr]
  by (simp add: articleTime_def at_def Let_def Format_January_2006_year)

subsection \<open>Extensions and titles\<close>

lemma extFrom_cases:
  "extFrom cs acc = [] \<or> (\<exists>pre post. cs = pre @ post \<and> extFrom cs acc = rev pre @ acc)"
proof (induction cs arbitrary: acc)
  case Nil
  then show ?case by simp
next
  case (Cons c cs)
  show ?case
  proof (cases "c = CHR ''/'' \<or> c = CHR ''.''")
    case True
    then show ?thesis
      by (auto intro: exI[of _ "[c]"])
  next
    case False
    from Cons[of "c # acc"] show ?thesis
    proof
      assume "extFrom cs (c # acc) = []"
      with False show ?thesis by simp
    next
      assume "\<exists>pre post. cs = pre @ post \<and> extFrom cs (c # acc) = rev pre @ c # acc"
      then obtain pre post where "cs = pre @ post" "extFrom cs (c # acc) = rev pre @ c # acc"
        by blast
      with False have "c # cs = (c # pre) @ post \<and> extFrom (c # cs) acc = rev (c # pre) @ acc"
        by simp
      then show ?thesis by blast
    qed
  qed
qed

lemma Ext_suffix: "\<exists>stem. s = stem @ Ext s"
proof -
  from extFrom_cases[of "rev s" "[]"] show ?thesis
  proof
    assume "extFrom (rev s) [] = []"
    then show ?thesis by (simp add: Ext_def)
  next
    assume "\<exists>pre post. rev s = pre @ post \<and> extFrom (rev s) [] = rev pre @ []"
    then obtain pre post where "rev s = pre @ post" and e: "Ext s = rev pre"
      by (auto simp: Ext_def)
    then have "s = rev post @ rev pre"
      by (metis rev_append rev_rev_ident)
    with e show ?thesis by auto
  qed
qed

lemma Ext_take: "take (length s - length (Ext s)) s @ Ext s = s"
proof -
  obtain stem where "s = stem @ Ext s" using Ext_suffix by blast
  then have "take (length s - length (Ext s)) s = stem"
    by (metis add_diff_cancel_right' append_eq_conv_conj length_append)
  with \<open>s = stem @ Ext s\<close> show ?thesis by simp
qed

lemma length_Ext_le: "length (Ext s) \<le> length s"
  by (metis Ext_suffix length_append le_add2)

lemma titleOf_eq:
  "titleOf src =
     Some (map (\<lambda>c. if c = CHR ''-'' then CHR '' '' else c)
             (take (length (Base src) - length (Ext (Base src))) (Base src)))"
  using length_Ext_le[of "Base src"]
  by (simp add: titleOf_def sliceTo_def Let_def ReplaceAll_single nat_diff_distrib' flip: of_nat_diff)

lemma Ext_md: "Ext (p @ ''.md'') = ''.md''"
  by (simp add: Ext_def)

lemma Base_md: "Base (p @ ''.md'') = rev (takeWhile (\<lambda>c. c \<noteq> CHR ''/'') (rev p)) @ ''.md''"
  by (simp add: Base_def Let_def)

lemma Ext_md_Base:
  assumes "Ext src = ''.md''"
  shows "\<exists>stem. Base src = stem @ ''.md'' \<and> Ext (Base src) = ''.md'' \<and> CHR ''/'' \<notin> set stem"
proof -
  from Ext_suffix[of src] assms obtain p where "src = p @ ''.md''" by auto
  then have "Base src = rev (takeWhile (\<lambda>c. c \<noteq> CHR ''/'') (rev p)) @ ''.md''"
    by (simp only: Base_md)
  moreover have "CHR ''/'' \<notin> set (rev (takeWhile (\<lambda>c. c \<noteq> CHR ''/'') (rev p)))"
    by (auto dest: set_takeWhileD)
  ultimately show ?thesis
    by (metis Ext_md)
qed

lemma destOf_md:
  assumes "Ext path = ''.md''"
  shows "\<exists>stem. Base path = stem @ ''.md'' \<and> CHR ''/'' \<notin> set stem
     \<and> destOf ev path rel
         = Some (Join [Dir rel, ToLower (unicodeLower ev) (stem @ ''.html'')],
                 Join [destFolder, Dir rel, ToLower (unicodeLower ev) (stem @ ''.html'')])"
proof -
  from Ext_md_Base[OF assms] obtain stem where
    b: "Base path = stem @ ''.md''" and s: "CHR ''/'' \<notin> set stem" by blast
  have "sliceTo (stem @ ''.md'') (int (length (stem @ ''.md'')) - 2) = Some (stem @ ''.'')"
    by (simp add: sliceTo_def nat_add_distrib)
  with b s show ?thesis
    by (intro exI[of _ stem]) (simp add: destOf_def Let_def)
qed

section \<open>Facts about the file system and \<^verbatim>\<open>copy\<close>\<close>

lemma resolve_srcPath:
  assumes "articlesTree w = Some t" and "ns \<noteq> []" and "\<forall>n\<in>set ns. validName n"
  shows "resolve w (srcPath ns) = descend t ns"
proof -
  have ne: "srcPath ns \<noteq> srcPath []"
    using srcPath_inj[of ns "[]"] assms by auto
  have eq: "srcPath ns = (srcPath [] @ ''/'') @ strings_Join ns ''/''"
    using assms(2) by (simp add: srcPath_Cons_ne)
  then have pre: "HasPrefix (srcPath ns) (srcPath [] @ ''/'')"
    unfolding HasPrefix_iff by blast
  have "drop (length (srcPath []) + 1) (srcPath ns) = strings_Join ns ''/''"
    by (subst eq) simp
  moreover have "Split (strings_Join ns ''/'') ''/'' = ns"
    using assms(2,3) by (intro Split_strings_Join) (auto simp: validName_def)
  ultimately show ?thesis
    using assms(1) ne pre by (simp add: resolve_def sourceArticlesFolder_eq)
qed

lemma resolve_root: "articlesTree w = Some t \<Longrightarrow> resolve w sourceArticlesFolder = Some t"
  by (simp add: resolve_def)

lemma MkdirAll_preserves:
  "MkdirAll p fs = Inr fs' \<Longrightarrow> fs k = Some v \<Longrightarrow> fs' k = Some v"
proof (induction p fs arbitrary: fs' rule: MkdirAll.induct)
  case (1 path fs)
  show ?case
  proof (cases "fs (Clean path)")
    case None
    show ?thesis
    proof (cases "parentOf path = []")
      case True
      with None 1(2,3) show ?thesis
        by (subst (asm) MkdirAll.simps) (auto split: if_splits)
    next
      case False
      with None 1(2) obtain fs1 where p: "MkdirAll (parentOf path) fs = Inr fs1"
        and f: "fs' = fs1(Clean path \<mapsto> OutDir)" and ne: "path \<noteq> []"
        by (subst (asm) MkdirAll.simps) (auto split: if_splits sum.splits)
      from 1(1)[OF None ne False p 1(3)] have "fs1 k = Some v" .
      with f None 1(3) show ?thesis by auto
    qed
  next
    case (Some d)
    with 1(2,3) show ?thesis
      by (subst (asm) MkdirAll.simps) (auto split: dnode.splits)
  qed
qed

lemma Create_frame:
  "Create name fs = Inr fs' \<Longrightarrow> k \<noteq> Clean name \<Longrightarrow> fs' k = fs k"
  by (auto simp: Create_def split: option.splits dnode.splits if_splits)

lemma copy_frame:
  assumes "copy dst src w = (r, w1)"
  shows "articlesTree w1 = articlesTree w \<and> stdout w1 = stdout w \<and> logged w1 = logged w
         \<and> (\<forall>k v. k \<noteq> Clean dst \<longrightarrow> out w k = Some v \<longrightarrow> out w1 k = Some v)"
  using assms
  by (auto simp: copy_def writeFile_def Create_frame
           split: sum.splits if_splits dest: MkdirAll_preserves)

lemma copy_ok:
  assumes "copy dst src w = (Inr n, w1)"
  shows "\<exists>c. ReadFile w src = Inr c \<and> n = length c \<and> out w1 (Clean dst) = Some (OutFile c)"
  using assms
  by (auto simp: copy_def writeFile_def split: sum.splits if_splits)


section \<open>Facts about the walk\<close>

lemma visitAll_append:
  "visitAll f (xs @ ys) s =
     (case visitAll f xs s of
        (Some e, s') \<Rightarrow> (Some e, s')
      | (None, s') \<Rightarrow> visitAll f ys s')"
  by (induction xs arbitrary: s) (auto split: prod.splits option.splits)

lemma walk_nodesAt:
  "\<forall>n\<in>set ns. validName n \<Longrightarrow> wfTree t \<Longrightarrow>
     walk (srcPath ns) t f s = visitAll f (nodesAt ns t) s"
  and walkNames_nodesIn:
  "\<forall>n\<in>set ns. validName n \<Longrightarrow> \<forall>e\<in>set es. validName (fst e) \<and> wfTree (snd e) \<Longrightarrow>
     walkNames (srcPath ns) es f s = visitAll f (nodesIn ns es) s"
proof (induction ns t and ns es arbitrary: s and s rule: nodesAt_nodesIn.induct)
  case (1 ns entries)
  then show ?case
    by (auto simp: visit_def split: prod.splits option.splits)
next
  case (7 ns name n rest)
  then have "Join [srcPath ns, name] = srcPath (ns @ [name])"
    by (intro Join_srcPath) auto
  with 7 show ?case
    by (auto simp: visitAll_append split: prod.splits option.splits)
qed (auto simp: visit_def split: prod.splits option.splits)

lemma nodesAt_prefix:
  "(ns, n) \<in> set (nodesAt ps t) \<Longrightarrow> \<exists>ms. ns = ps @ ms"
  and nodesIn_prefix:
  "(ns, n) \<in> set (nodesIn ps es) \<Longrightarrow> \<exists>name ms. name \<in> fst ` set es \<and> ns = ps @ name # ms"
proof (induction ps t and ps es rule: nodesAt_nodesIn.induct)
  case (1 ns' entries)
  then show ?case by auto
next
  case (7 ns' name c rest)
  from 7(3) consider "(ns, n) \<in> set (nodesAt (ns' @ [name]) c)" | "(ns, n) \<in> set (nodesIn ns' rest)"
    by auto
  then show ?case
  proof cases
    case 1
    with 7(1) obtain ms where "ns = (ns' @ [name]) @ ms" by blast
    then show ?thesis by auto
  next
    case 2
    with 7(2) show ?thesis by auto
  qed
qed auto

lemma nodesAt_descend:
  "wfTree t \<Longrightarrow> (ns, n) \<in> set (nodesAt ps t) \<Longrightarrow>
     \<exists>ms. ns = ps @ ms \<and> descend t ms = Some n \<and> (\<forall>m\<in>set ms. validName m)"
  and nodesIn_descend:
  "\<forall>e\<in>set es. validName (fst e) \<and> wfTree (snd e) \<Longrightarrow> (ns, n) \<in> set (nodesIn ps es) \<Longrightarrow>
     \<exists>name c ms. (name, c) \<in> set es \<and> ns = ps @ name # ms \<and> descend c ms = Some n
        \<and> (\<forall>m\<in>set ms. validName m)"
proof (induction ps t and ps es rule: nodesAt_nodesIn.induct)
  case (1 ps entries)
  from 1(3) consider "ns = ps" "n = Folder entries" | "(ns, n) \<in> set (nodesIn ps entries)"
    by auto
  then show ?case
  proof cases
    case 1
    then show ?thesis by simp
  next
    case 2
    with 1(1,2) obtain name c ms where
      e: "(name, c) \<in> set entries" "ns = ps @ name # ms" "descend c ms = Some n"
         "\<forall>m\<in>set ms. validName m"
      by auto
    from 1(2) e(1) have "map_of entries name = Some c" "validName name"
      by auto
    with e show ?thesis
      by (intro exI[of _ "name # ms"]) simp
  qed
next
  case (7 ps name c rest)
  from 7(4) consider "(ns, n) \<in> set (nodesAt (ps @ [name]) c)" | "(ns, n) \<in> set (nodesIn ps rest)"
    by auto
  then show ?case
  proof cases
    case 1
    with 7(1,3) obtain ms where "ns = (ps @ [name]) @ ms" "descend c ms = Some n"
      "\<forall>m\<in>set ms. validName m"
      by auto
    then show ?thesis by auto
  next
    case 2
    with 7(2,3) show ?thesis by auto
  qed
qed auto

lemma descend_nodesAt:
  "wfTree t \<Longrightarrow> descend t ms = Some n \<Longrightarrow> (ps @ ms, n) \<in> set (nodesAt ps t)"
  and descend_nodesIn:
  "\<forall>e\<in>set es. validName (fst e) \<and> wfTree (snd e) \<Longrightarrow> (name, c) \<in> set es \<Longrightarrow>
     descend c ms' = Some n \<Longrightarrow> (ps @ name # ms', n) \<in> set (nodesIn ps es)"
proof (induction ps t and ps es arbitrary: ms and name c ms' rule: nodesAt_nodesIn.induct)
  case (1 ps entries)
  show ?case
  proof (cases ms)
    case Nil
    with 1(3) show ?thesis by auto
  next
    case (Cons m rest)
    with 1(3) obtain c where c: "map_of entries m = Some c" "descend c rest = Some n"
      by (auto split: option.splits)
    then have "(m, c) \<in> set entries"
      by (auto dest: map_of_SomeD)
    with 1(2) c(2) have "(ps @ m # rest, n) \<in> set (nodesIn ps entries)"
      by (intro 1(1)) auto
    with Cons show ?thesis by simp
  qed
next
  case (7 ps name' c' rest)
  from 7(4) consider "name = name'" "c = c'" | "(name, c) \<in> set rest" by auto
  then show ?case
  proof cases
    case 1
    with 7(3,5) have "((ps @ [name']) @ ms', n) \<in> set (nodesAt (ps @ [name']) c')"
      by (intro 7(1)) auto
    with 1 show ?thesis by simp
  next
    case 2
    with 7(3,5) have "(ps @ name # ms', n) \<in> set (nodesIn ps rest)"
      by (intro 7(2)) auto
    then show ?thesis by simp
  qed
qed (auto split: list.splits elim: descend.elims)

lemma distinct_nodesAt:
  "wfTree t \<Longrightarrow> distinct (map fst (nodesAt ps t))"
  and distinct_nodesIn:
  "\<forall>e\<in>set es. validName (fst e) \<and> wfTree (snd e) \<Longrightarrow> distinct (map fst es) \<Longrightarrow>
     distinct (map fst (nodesIn ps es))"
proof (induction ps t and ps es rule: nodesAt_nodesIn.induct)
  case (1 ps entries)
  have "ps \<notin> fst ` set (nodesIn ps entries)"
    by (auto dest: nodesIn_prefix)
  with 1 show ?case by simp
next
  case (7 ps name c rest)
  have "fst ` set (nodesAt (ps @ [name]) c) \<inter> fst ` set (nodesIn ps rest) = {}"
  proof (rule ccontr)
    assume "\<not> ?thesis"
    then obtain ns n n' where a: "(ns, n) \<in> set (nodesAt (ps @ [name]) c)"
      and b: "(ns, n') \<in> set (nodesIn ps rest)"
      by auto (metis fst_conv)
    from nodesAt_prefix[OF a] obtain ms where "ns = (ps @ [name]) @ ms" by blast
    moreover from nodesIn_prefix[OF b] obtain name' ms' where
      "name' \<in> fst ` set rest" "ns = ps @ name' # ms'" by blast
    ultimately have "name \<in> fst ` set rest" by simp
    with 7(4) show False by simp
  qed
  with 7 show ?case by (simp add: image_Un)
qed auto

lemma infoOf_simps:
  "IsDir (infoOf p n) = isFolder n" "Name (infoOf p n) = Base p"
  by (simp_all add: infoOf_def isFolder_def split: node.splits)

lemma walkFn_at:
  assumes "ns \<noteq> []" and "\<forall>n\<in>set ns. validName n"
  shows "walkFn (srcPath ns) (Some (infoOf (srcPath ns) n)) None (w, a) =
     (if isFolder n then (None, (w, a))
      else if dotName (last ns) then (None, (w, a))
      else if Ext (last ns) = ''.md''
        then (None, (w, setArticle (srcPath ns) (strings_Join ns ''/'') a))
      else case copy (dstPath ns) (srcPath ns) w of
             (Inl e, w') \<Rightarrow> (Some e, (w', a))
           | (Inr k, w') \<Rightarrow> (None, (w', a)))"
  using assms
  by (auto simp add: walkFn_def infoOf_simps Base_srcPath Rel_srcPath Join_destFolder
        dotName_def Let_def split: prod.splits sum.splits)

lemma walkFn_folder:
  "isFolder n \<Longrightarrow> walkFn p (Some (infoOf p n)) None s = (None, s)"
  by (simp add: walkFn_def infoOf_simps)

lemma walkFn_error: "walkFn p i (Some e) s = (Some e, s)"
  by (simp add: walkFn_def)

lemma map_of_setArticle: "map_of (setArticle k v a) = (map_of a)(k \<mapsto> v)"
  by (induction a) (auto simp: fun_upd_twist)

lemma set_setArticle: "set (setArticle k v a) \<subseteq> insert (k, v) (set a)"
  by (induction a) (auto split: if_splits)

lemma visit_cases:
  assumes "(\<forall>m\<in>set ns. validName m)" and "ns = [] \<longrightarrow> isFolder n"
  shows "visit walkFn (ns, n) (w, a) =
     (if n = LockedFolder then (Some (PathError ''open'' (srcPath ns)), (w, a))
      else if isFolder n then (None, (w, a))
      else if dotName (last ns) then (None, (w, a))
      else if Ext (last ns) = ''.md''
        then (None, (w, setArticle (srcPath ns) (strings_Join ns ''/'') a))
      else case copy (dstPath ns) (srcPath ns) w of
             (Inl e, w') \<Rightarrow> (Some e, (w', a))
           | (Inr k, w') \<Rightarrow> (None, (w', a)))"
proof (cases "n = LockedFolder")
  case True
  then show ?thesis by (simp add: visit_def walkFn_error)
next
  case lf: False
  then have e: "(case n of LockedFolder \<Rightarrow> Some x | _ \<Rightarrow> None) = None" for x :: error
    by (cases n) auto
  show ?thesis
  proof (cases "isFolder n")
    case True
    with lf e show ?thesis by (simp add: visit_def walkFn_folder)
  next
    case False
    with assms(2) have "ns \<noteq> []" by auto
    from walkFn_at[OF this assms(1), of n w a] lf e False show ?thesis
      by (simp add: visit_def)
  qed
qed

lemma visit_tree:
  assumes "(\<forall>m\<in>set ns. validName m)" and "ns = [] \<longrightarrow> isFolder n"
    and "visit walkFn (ns, n) (w, a) = (r, (w1, a1))"
  shows "articlesTree w1 = articlesTree w"
    and "k \<noteq> dstPath ns \<Longrightarrow> out w k = Some v \<Longrightarrow> out w1 k = Some v"
proof -
  have c: "Clean (dstPath ns) = dstPath ns"
    using assms(1) by (rule Clean_dstPath)
  from assms(3) show "articlesTree w1 = articlesTree w"
    unfolding visit_cases[OF assms(1,2)]
    by (auto split: if_splits prod.splits sum.splits dest: copy_frame)
  assume "k \<noteq> dstPath ns" "out w k = Some v"
  with assms(3) c show "out w1 k = Some v"
    unfolding visit_cases[OF assms(1,2)]
    by (auto split: if_splits prod.splits sum.splits dest!: copy_frame)
qed

lemma visit_copy:
  assumes "(\<forall>m\<in>set ns. validName m)" and "ns \<noteq> []"
    and "articlesTree w = Some t" and "descend t ns = Some (File c)"
    and "assetName (last ns)"
    and "visit walkFn (ns, File c) (w, a) = (None, (w1, a1))"
  shows "out w1 (dstPath ns) = Some (OutFile c)" and "a1 = a"
proof -
  have cl: "Clean (dstPath ns) = dstPath ns"
    using assms(1) by (rule Clean_dstPath)
  have rd: "ReadFile w (srcPath ns) = Inr c"
    using assms(1-4) by (simp add: ReadFile_def resolve_srcPath)
  have "ns = [] \<longrightarrow> isFolder (File c)"
    using assms(2) by simp
  note vc = visit_cases[OF assms(1) this]
  from assms(2,5,6) obtain k where cp: "copy (dstPath ns) (srcPath ns) w = (Inr k, w1)" and "a1 = a"
    unfolding vc
    by (auto simp: assetName_def isFolder_def split: prod.splits sum.splits)
  then show "a1 = a" by simp
  from copy_ok[OF cp] rd cl show "out w1 (dstPath ns) = Some (OutFile c)"
    by auto
qed

lemma visit_articles:
  assumes "(\<forall>m\<in>set ns. validName m)" and "ns = [] \<longrightarrow> isFolder n"
    and "visit walkFn (ns, n) (w, a) = (None, (w1, a1))"
  shows "a1 = (if \<not> isFolder n \<and> mdName (last ns)
               then setArticle (srcPath ns) (strings_Join ns ''/'') a else a)"
    and "\<not> isFolder n \<Longrightarrow> mdName (last ns) \<Longrightarrow> w1 = w"
  using assms(3) unfolding visit_cases[OF assms(1,2)]
  by (auto simp: mdName_def isFolder_def split: if_splits prod.splits sum.splits)

lemma visitAll_Cons_NoneD:
  "visitAll f (u # us) s = (None, (w1, a1)) \<Longrightarrow>
     \<exists>w0 a0. visit f u s = (None, (w0, a0)) \<and> visitAll f us (w0, a0) = (None, (w1, a1))"
  by (auto split: prod.splits option.splits)

lemma fromTree_Cons:
  "fromTree t (u # us) \<longleftrightarrow>
     ((\<forall>m\<in>set (fst u). validName m) \<and> descend t (fst u) = Some (snd u)
        \<and> (fst u = [] \<longrightarrow> isFolder (snd u))) \<and> fromTree t us"
  by (auto simp: fromTree_def)

lemma visitAll_frame:
  assumes "fromTree t nodes" and "visitAll walkFn nodes (w, a) = (r, (w1, a1))"
  shows "articlesTree w1 = articlesTree w
       \<and> (\<forall>k v. out w k = Some v \<longrightarrow> (\<forall>u\<in>set nodes. k \<noteq> dstPath (fst u)) \<longrightarrow>
             out w1 k = Some v)"
  using assms
proof (induction nodes arbitrary: w a)
  case Nil
  then show ?case by simp
next
  case (Cons u us)
  obtain ns n where u: "u = (ns, n)" by (cases u)
  obtain r0 w0 a0 where v: "visit walkFn (ns, n) (w, a) = (r0, (w0, a0))"
    by (metis prod.exhaust)
  from Cons.prems(1) u have g: "\<forall>m\<in>set ns. validName m" "ns = [] \<longrightarrow> isFolder n"
    and ft: "fromTree t us"
    by (auto simp: fromTree_Cons)
  note st = visit_tree[OF g v]
  show ?case
  proof (cases r0)
    case None
    with Cons.prems(2) u v have "visitAll walkFn us (w0, a0) = (r, (w1, a1))"
      by simp
    from Cons.IH[OF ft this] st u show ?thesis
      by auto
  next
    case (Some e)
    with Cons.prems(2) u v have "w1 = w0"
      by simp
    with st u show ?thesis by auto
  qed
qed

lemma visitAll_copy:
  assumes "fromTree t nodes" and "articlesTree w = Some t"
    and "visitAll walkFn nodes (w, a) = (None, (w1, a1))"
    and "distinct (map fst nodes)"
    and "(ns, File c) \<in> set nodes" and "ns \<noteq> []" and "assetName (last ns)"
  shows "out w1 (dstPath ns) = Some (OutFile c)"
  using assms(1-5)
proof (induction nodes arbitrary: w a)
  case Nil
  then show ?case by simp
next
  case (Cons u us)
  obtain ms n where u: "u = (ms, n)" by (cases u)
  from visitAll_Cons_NoneD[OF Cons.prems(3)[unfolded u]] obtain w0 a0 where
    v: "visit walkFn (ms, n) (w, a) = (None, (w0, a0))"
    and rest: "visitAll walkFn us (w0, a0) = (None, (w1, a1))"
    by blast
  from Cons.prems(1) u have g: "\<forall>m\<in>set ms. validName m" "ms = [] \<longrightarrow> isFolder n"
    "descend t ms = Some n" and ft: "fromTree t us"
    by (auto simp: fromTree_Cons)
  have tree: "articlesTree w0 = Some t"
    using visit_tree(1)[OF g(1,2) v] Cons.prems(2) by simp
  show ?case
  proof (cases "u = (ns, File c)")
    case True
    with u have e: "ms = ns" "n = File c" by simp_all
    from visit_copy[OF g(1)[unfolded e] assms(6) Cons.prems(2) g(3)[unfolded e] assms(7)
        v[unfolded e]]
    have here: "out w0 (dstPath ns) = Some (OutFile c)" by simp
    have "\<forall>u'\<in>set us. dstPath ns \<noteq> dstPath (fst u')"
    proof
      fix u' assume in_us: "u' \<in> set us"
      with Cons.prems(4) u e have "fst u' \<noteq> ns" by auto
      moreover from ft in_us have "\<forall>m\<in>set (fst u'). validName m"
        by (auto simp: fromTree_def)
      ultimately show "dstPath ns \<noteq> dstPath (fst u')"
        using dstPath_inj[of ns "fst u'"] g(1) e by auto
    qed
    with visitAll_frame[OF ft rest] here show ?thesis by blast
  next
    case False
    with Cons.prems(5) have "(ns, File c) \<in> set us" by simp
    with Cons.IH[OF ft tree rest] Cons.prems(4) show ?thesis by simp
  qed
qed

lemma visitAll_other_keys:
  assumes "fromTree t nodes" and "visitAll walkFn nodes (w, a) = (None, (w1, a1))"
    and "\<forall>u\<in>set nodes. \<not> isFolder (snd u) \<and> mdName (last (fst u)) \<longrightarrow> k \<noteq> srcPath (fst u)"
  shows "map_of a1 k = map_of a k"
  using assms
proof (induction nodes arbitrary: w a)
  case Nil
  then show ?case by simp
next
  case (Cons u us)
  obtain ms n where u: "u = (ms, n)" by (cases u)
  from visitAll_Cons_NoneD[OF Cons.prems(2)[unfolded u]] obtain w0 a0 where
    v: "visit walkFn (ms, n) (w, a) = (None, (w0, a0))"
    and rest: "visitAll walkFn us (w0, a0) = (None, (w1, a1))"
    by blast
  from Cons.prems(1) u have g: "\<forall>m\<in>set ms. validName m" "ms = [] \<longrightarrow> isFolder n"
    and ft: "fromTree t us"
    by (auto simp: fromTree_Cons)
  from visit_articles(1)[OF g v] Cons.prems(3) u have "map_of a0 k = map_of a k"
    by (auto simp: map_of_setArticle)
  moreover from Cons.IH[OF ft rest] Cons.prems(3) have "map_of a1 k = map_of a0 k"
    by simp
  ultimately show ?case by simp
qed

lemma visitAll_recorded:
  assumes "fromTree t nodes" and "visitAll walkFn nodes (w, a) = (None, (w1, a1))"
    and "distinct (map fst nodes)"
    and "(ns, n) \<in> set nodes" and "\<not> isFolder n" and "mdName (last ns)"
  shows "map_of a1 (srcPath ns) = Some (strings_Join ns ''/'')"
  using assms(1-4)
proof (induction nodes arbitrary: w a)
  case Nil
  then show ?case by simp
next
  case (Cons u us)
  obtain ms n' where u: "u = (ms, n')" by (cases u)
  from visitAll_Cons_NoneD[OF Cons.prems(2)[unfolded u]] obtain w0 a0 where
    v: "visit walkFn (ms, n') (w, a) = (None, (w0, a0))"
    and rest: "visitAll walkFn us (w0, a0) = (None, (w1, a1))"
    by blast
  from Cons.prems(1) u have g: "\<forall>m\<in>set ms. validName m" "ms = [] \<longrightarrow> isFolder n'"
    and ft: "fromTree t us"
    by (auto simp: fromTree_Cons)
  show ?case
  proof (cases "u = (ns, n)")
    case True
    with u have e: "ms = ns" "n' = n" by simp_all
    from visit_articles(1)[OF g v] e assms(5,6)
    have here: "map_of a0 (srcPath ns) = Some (strings_Join ns ''/'')"
      by (simp add: map_of_setArticle)
    have "\<forall>u'\<in>set us. \<not> isFolder (snd u') \<and> mdName (last (fst u'))
            \<longrightarrow> srcPath ns \<noteq> srcPath (fst u')"
    proof (intro ballI impI)
      fix u' assume in_us: "u' \<in> set us"
      with Cons.prems(3) u e have "fst u' \<noteq> ns" by auto
      moreover from ft in_us have "\<forall>m\<in>set (fst u'). validName m"
        by (auto simp: fromTree_def)
      ultimately show "srcPath ns \<noteq> srcPath (fst u')"
        using srcPath_inj[of ns "fst u'"] g(1) e by auto
    qed
    from visitAll_other_keys[OF ft rest this] here show ?thesis by simp
  next
    case False
    with Cons.prems(4) have "(ns, n) \<in> set us" by simp
    with Cons.IH[OF ft rest] Cons.prems(3) show ?thesis by simp
  qed
qed

lemma visitAll_article_keys:
  assumes "fromTree t nodes" and "visitAll walkFn nodes (w, a) = (None, (w1, a1))"
    and "(p, rel) \<in> set a1"
  shows "(p, rel) \<in> set a
       \<or> (\<exists>u\<in>set nodes. \<not> isFolder (snd u) \<and> mdName (last (fst u))
             \<and> p = srcPath (fst u) \<and> rel = strings_Join (fst u) ''/'')"
  using assms
proof (induction nodes arbitrary: w a)
  case Nil
  then show ?case by simp
next
  case (Cons u us)
  obtain ms n where u: "u = (ms, n)" by (cases u)
  from visitAll_Cons_NoneD[OF Cons.prems(2)[unfolded u]] obtain w0 a0 where
    v: "visit walkFn (ms, n) (w, a) = (None, (w0, a0))"
    and rest: "visitAll walkFn us (w0, a0) = (None, (w1, a1))"
    by blast
  from Cons.prems(1) u have g: "\<forall>m\<in>set ms. validName m" "ms = [] \<longrightarrow> isFolder n"
    and ft: "fromTree t us"
    by (auto simp: fromTree_Cons)
  from Cons.IH[OF ft rest Cons.prems(3)] show ?case
  proof
    assume "(p, rel) \<in> set a0"
    with visit_articles(1)[OF g v] set_setArticle[of "srcPath ms" "strings_Join ms ''/''" a] u
    show ?thesis
      by (auto split: if_splits)
  next
    assume "\<exists>u\<in>set us. \<not> isFolder (snd u) \<and> mdName (last (fst u))
             \<and> p = srcPath (fst u) \<and> rel = strings_Join (fst u) ''/''"
    then show ?thesis by auto
  qed
qed

lemma Walk_nodesAt:
  assumes "articlesTree w = Some t" and "wfTree t"
  shows "Walk w sourceArticlesFolder walkFn s = visitAll walkFn (nodesAt [] t) s"
proof -
  have "walk (srcPath []) t walkFn s = visitAll walkFn (nodesAt [] t) s"
    using assms(2) by (intro walk_nodesAt) simp_all
  with assms(1) show ?thesis
    by (simp add: Walk_def resolve_root sourceArticlesFolder_eq[symmetric])
qed

lemma fromTree_nodesAt:
  assumes "wfTree t" and "isFolder t"
  shows "fromTree t (nodesAt [] t)"
  unfolding fromTree_def
proof (intro ballI)
  fix v assume "v \<in> set (nodesAt [] t)"
  then have "(fst v, snd v) \<in> set (nodesAt [] t)" by simp
  from nodesAt_descend[OF assms(1) this] assms(2)
  show "(\<forall>m\<in>set (fst v). validName m) \<and> descend t (fst v) = Some (snd v)
        \<and> (fst v = [] \<longrightarrow> isFolder (snd v))"
    by auto
qed

lemma descend_valid:
  assumes "wfTree t" and "descend t ns = Some n"
  shows "\<forall>m\<in>set ns. validName m"
proof -
  from descend_nodesAt[OF assms, of "[]"] have "(ns, n) \<in> set (nodesAt [] t)" by simp
  from nodesAt_descend[OF assms(1) this] show ?thesis by auto
qed

lemma Walk_copies:
  assumes "articlesTree w = Some t" and "wfTree t" and "isFolder t"
    and "Walk w sourceArticlesFolder walkFn (w, a) = (None, (w', arts))"
    and "descend t ns = Some (File c)" and "ns \<noteq> []" and "assetName (last ns)"
  shows "out w' (dstPath ns) = Some (OutFile c)" and "map_of arts (srcPath ns) = map_of a (srcPath ns)"
proof -
  note ft = fromTree_nodesAt[OF assms(2,3)]
  from assms(4) have va: "visitAll walkFn (nodesAt [] t) (w, a) = (None, (w', arts))"
    by (simp add: Walk_nodesAt[OF assms(1,2)])
  have mem: "(ns, File c) \<in> set (nodesAt [] t)"
    using descend_nodesAt[OF assms(2,5), of "[]"] by simp
  show "out w' (dstPath ns) = Some (OutFile c)"
    by (rule visitAll_copy[OF ft assms(1) va distinct_nodesAt[OF assms(2)] mem assms(6,7)])
  have v: "\<forall>m\<in>set ns. validName m"
    by (rule descend_valid[OF assms(2,5)])
  have "\<forall>u\<in>set (nodesAt [] t). \<not> isFolder (snd u) \<and> mdName (last (fst u))
          \<longrightarrow> srcPath ns \<noteq> srcPath (fst u)"
  proof (intro ballI impI)
    fix u assume u: "u \<in> set (nodesAt [] t)" and md: "\<not> isFolder (snd u) \<and> mdName (last (fst u))"
    from ft u have "\<forall>m\<in>set (fst u). validName m"
      by (auto simp: fromTree_def)
    with v have "srcPath ns = srcPath (fst u) \<Longrightarrow> ns = fst u"
      by (intro srcPath_inj)
    with md assms(7) show "srcPath ns \<noteq> srcPath (fst u)"
      by (auto simp: mdName_def assetName_def)
  qed
  from visitAll_other_keys[OF ft va this]
  show "map_of arts (srcPath ns) = map_of a (srcPath ns)" .
qed

lemma Walk_records:
  assumes "articlesTree w = Some t" and "wfTree t" and "isFolder t"
    and "Walk w sourceArticlesFolder walkFn (w, a) = (None, (w', arts))"
    and "descend t ns = Some n" and "\<not> isFolder n" and "mdName (last ns)"
  shows "map_of arts (srcPath ns) = Some (strings_Join ns ''/'')"
proof -
  note ft = fromTree_nodesAt[OF assms(2,3)]
  from assms(4) have va: "visitAll walkFn (nodesAt [] t) (w, a) = (None, (w', arts))"
    by (simp add: Walk_nodesAt[OF assms(1,2)])
  have mem: "(ns, n) \<in> set (nodesAt [] t)"
    using descend_nodesAt[OF assms(2,5), of "[]"] by simp
  show ?thesis
    by (rule visitAll_recorded[OF ft va distinct_nodesAt[OF assms(2)] mem assms(6,7)])
qed

lemma Walk_article_keys:
  assumes "articlesTree w = Some t" and "wfTree t" and "isFolder t"
    and "Walk w sourceArticlesFolder walkFn (w, []) = (None, (w', arts))"
    and "(p, rel) \<in> set arts"
  shows "\<exists>ns n. descend t ns = Some n \<and> \<not> isFolder n \<and> mdName (last ns) \<and> ns \<noteq> []
           \<and> (\<forall>m\<in>set ns. validName m) \<and> p = srcPath ns \<and> rel = strings_Join ns ''/''"
proof -
  note ft = fromTree_nodesAt[OF assms(2,3)]
  from assms(4) have va: "visitAll walkFn (nodesAt [] t) (w, []) = (None, (w', arts))"
    by (simp add: Walk_nodesAt[OF assms(1,2)])
  from visitAll_article_keys[OF ft va assms(5)] obtain u where
    u: "u \<in> set (nodesAt [] t)" "\<not> isFolder (snd u)" "mdName (last (fst u))"
       "p = srcPath (fst u)" "rel = strings_Join (fst u) ''/''"
    by auto
  with ft have "descend t (fst u) = Some (snd u)" "\<forall>m\<in>set (fst u). validName m"
    "fst u = [] \<longrightarrow> isFolder (snd u)"
    by (auto simp: fromTree_def)
  with u show ?thesis
    by (intro exI[of _ "fst u"] exI[of _ "snd u"]) auto
qed

lemma Walk_tree:
  assumes "articlesTree w = Some t" and "wfTree t" and "isFolder t"
    and "Walk w sourceArticlesFolder walkFn (w, a) = (r, (w', arts))"
  shows "articlesTree w' = Some t"
  using visitAll_frame[OF fromTree_nodesAt[OF assms(2,3)], of w a r w' arts] assms(1,4)
  by (simp add: Walk_nodesAt[OF assms(1,2)])

lemma walk_invariant:
  fixes f :: "'s walkFunc"
  shows "\<forall>p i e s r s'. f p i e s = (r, s') \<longrightarrow> I s \<longrightarrow> I s' \<Longrightarrow>
           walk path n f s = (r, s') \<Longrightarrow> I s \<Longrightarrow> I s'"
    and "\<forall>p i e s r s'. f p i e s = (r, s') \<longrightarrow> I s \<longrightarrow> I s' \<Longrightarrow>
           walkNames path es f s = (r, s') \<Longrightarrow> I s \<Longrightarrow> I s'"
proof (induction path n f s and path es f s arbitrary: r s' and r s'
    rule: walk_walkNames.induct)
  case (1 path entries walkFn s)
  obtain r0 s0 where c: "walkFn path (Some (infoOf path (Folder entries))) None s = (r0, s0)"
    by (metis prod.exhaust)
  with 1(2,4) have i0: "I s0" by blast
  show ?case
  proof (cases r0)
    case None
    with c 1(3) have "walkNames path entries walkFn s0 = (r, s')" by simp
    from 1(1)[OF c[unfolded None, symmetric] refl 1(2) this i0] show ?thesis .
  next
    case (Some e)
    with c 1(3) i0 show ?thesis by simp
  qed
next
  case (7 path name n rest walkFn s)
  obtain r0 s0 where c: "walk (Join [path, name]) n walkFn s = (r0, s0)"
    by (metis prod.exhaust)
  from 7(1)[OF 7(3) c 7(5)] have i0: "I s0" .
  show ?case
  proof (cases r0)
    case None
    with c 7(4) have "walkNames path rest walkFn s0 = (r, s')" by simp
    from 7(2)[OF c[unfolded None, symmetric] refl 7(3) this i0] show ?thesis .
  next
    case (Some e)
    with c 7(4) i0 show ?thesis by simp
  qed
qed auto

lemma walkFn_keys_md:
  assumes "walkFn p i e s = (r, s')" and "\<forall>kv\<in>set (snd s). Ext (fst kv) = ''.md''"
  shows "\<forall>kv\<in>set (snd s'). Ext (fst kv) = ''.md''"
proof -
  have "Ext k = ''.md''" if "Ext p = ''.md''" "(k, v) \<in> set (setArticle p rel (snd s))" for rel k v
  proof -
    from set_setArticle[of p rel "snd s"] that(2)
    have "(k, v) = (p, rel) \<or> (k, v) \<in> set (snd s)" by blast
    then show ?thesis
    proof
      assume "(k, v) = (p, rel)"
      with that(1) show ?thesis by simp
    next
      assume "(k, v) \<in> set (snd s)"
      with assms(2) have "Ext (fst (k, v)) = ''.md''" by (rule bspec)
      then show ?thesis by simp
    qed
  qed
  with assms show ?thesis
    by (auto simp: walkFn_def Let_def split: option.splits if_splits sum.splits prod.splits)
qed

lemma Walk_keys_md:
  assumes "Walk w root walkFn (w0, []) = (r, (w', arts))"
  shows "\<forall>kv\<in>set arts. Ext (fst kv) = ''.md''"
proof -
  let ?I = "\<lambda>s :: world \<times> (string \<times> string) list. \<forall>kv\<in>set (snd s). Ext (fst kv) = ''.md''"
  have pres: "\<forall>p i e s r s'. walkFn p i e s = (r, s') \<longrightarrow> ?I s \<longrightarrow> ?I s'"
    using walkFn_keys_md by blast
  have "?I (w', arts)"
  proof (cases "resolve w root")
    case None
    with assms have "walkFn root None (Some (PathError ''lstat'' root)) (w0, []) = (r, (w', arts))"
      by (simp add: Walk_def)
    from walkFn_keys_md[OF this] show ?thesis by simp
  next
    case (Some n)
    with assms have wk: "walk root n walkFn (w0, []) = (r, (w', arts))"
      by (simp add: Walk_def)
    show ?thesis
      by (rule walk_invariant(1)[where I = ?I, OF pres wk]) simp
  qed
  then show ?thesis by simp
qed

subsection \<open>The walks of the example trees\<close>

lemma descend_file_ne:
  assumes "isFolder t" and "descend t ns = Some (File content)"
  shows "ns \<noteq> []"
  using assms by (auto simp: isFolder_def)

lemma exampleTree_wf: "wfTree exampleTree \<and> isFolder exampleTree"
  by (simp add: exampleTree_def isFolder_def validName_def)

lemma exampleWalk:
  "\<exists>w' articles. Walk exampleWorld sourceArticlesFolder walkFn (exampleWorld, [])
      = (None, (w', articles))"
  by (simp add: strings_eval path_eval fs_eval bloggen_eval example_eval Let_def)

lemma dotDirTree_wf:
  "articlesTree dotDirWorld = Some t \<Longrightarrow> wfTree t \<and> isFolder t"
  by (auto simp: dotDirWorld_def isFolder_def validName_def)

lemma dotDirWalk:
  "\<exists>w' articles. Walk dotDirWorld sourceArticlesFolder walkFn (dotDirWorld, [])
      = (None, (w', articles))"
  by (simp add: strings_eval path_eval fs_eval bloggen_eval dotDirWorld_def Let_def)

lemma char_of_digits:
  "char_of (48 :: nat) = CHR ''0''" "char_of (49 :: nat) = CHR ''1''"
  "char_of (50 :: nat) = CHR ''2''" "char_of (51 :: nat) = CHR ''3''"
  "char_of (52 :: nat) = CHR ''4''" "char_of (53 :: nat) = CHR ''5''"
  "char_of (54 :: nat) = CHR ''6''" "char_of (55 :: nat) = CHR ''7''"
  "char_of (56 :: nat) = CHR ''8''" "char_of (57 :: nat) = CHR ''9''"
  by code_simp+

section \<open>Facts about \<^verbatim>\<open>processMarkdownFile\<close>\<close>

lemma articleTime_frame:
  "articleTime path w = Returned (r, w1) \<Longrightarrow>
   articlesTree w1 = articlesTree w \<and> out w1 = out w \<and> stdout w1 = stdout w"
  by (auto simp: articleTime_def Let_def split: option.splits sum.splits)

lemma ReadFile_cong: "articlesTree w1 = articlesTree w \<Longrightarrow> ReadFile w1 src = ReadFile w src"
  by (simp add: ReadFile_def resolve_def)

lemma processMarkdownFile_success:
  assumes "processMarkdownFile ev g path dest src w0 = Returned (None, w')"
  shows "\<exists>ts w1 b img title fs1 fs2.
      articleTime path (w0\<lparr>stdout := stdout w0 @ [path]\<rparr>) = Returned (Inr ts, w1)
    \<and> ReadFile w1 src = Inr b
    \<and> findImage path (scanTokens b) = Some img
    \<and> titleOf src = Some title
    \<and> MkdirAll (Dir dest) (out w1) = Inr fs1
    \<and> Create dest fs1 = Inr fs2
    \<and> snd (template g (pageData ev g path ts title (takeWhile (\<lambda>c. c \<noteq> CHR 0x0A) b) img (ToHTML ev b))) = None
    \<and> w' = w1\<lparr>out := writeFile dest
                (fst (template g (pageData ev g path ts title (takeWhile (\<lambda>c. c \<noteq> CHR 0x0A) b) img (ToHTML ev b)))) fs2\<rparr>"
  using assms
  by (auto simp: processMarkdownFile_def Let_def at_Split_0_single
           split: result.splits sum.splits option.splits prod.splits)


lemma processMarkdownFile_page:
  assumes "processMarkdownFile ev g path dest src w0 = Returned (None, w')"
  shows "\<exists>ts b img title.
      ReadFile w0 src = Inr b
    \<and> findImage path (scanTokens b) = Some img
    \<and> titleOf src = Some title
    \<and> out w' (Clean dest) = Some (OutFile (fst (template g
          (pageData ev g path ts title (takeWhile (\<lambda>c. c \<noteq> CHR 0x0A) b) img (ToHTML ev b)))))"
proof -
  from processMarkdownFile_success[OF assms] obtain ts w1 b img title fs1 fs2 where
    a: "articleTime path (w0\<lparr>stdout := stdout w0 @ [path]\<rparr>) = Returned (Inr ts, w1)"
    and r: "ReadFile w1 src = Inr b"
    and i: "findImage path (scanTokens b) = Some img"
    and t: "titleOf src = Some title"
    and w: "w' = w1\<lparr>out := writeFile dest
                (fst (template g (pageData ev g path ts title
                   (takeWhile (\<lambda>c. c \<noteq> CHR 0x0A) b) img (ToHTML ev b)))) fs2\<rparr>"
    by blast
  from a have "articlesTree w1 = articlesTree w0"
    by (auto dest: articleTime_frame)
  with r have "ReadFile w0 src = Inr b"
    by (simp add: ReadFile_def resolve_def)
  with i t w show ?thesis
    by (auto simp: writeFile_def)
qed

subsection \<open>The image loop\<close>

lemma findImage_no_line:
  "\<forall>t\<in>set lines. \<not> HasPrefix (TrimSpace t) ''!['' \<Longrightarrow> findImage path lines = Some []"
  by (induction lines) (simp_all add: Let_def)

lemma findImage_first_line:
  assumes "\<forall>t\<in>set before. \<not> HasPrefix (TrimSpace t) ''![''"
    and "HasPrefix (TrimSpace l) ''![''"
  shows "findImage path (before @ l # after)
           = (case at (Split (TrimSpace l) '']('') 1 of
                None \<Rightarrow> None
              | Some imagePath \<Rightarrow>
                  Some (''https://xbarapp.com/docs/'' @ Join [Dir path, TrimSuffix imagePath '')'']))"
  using assms by (induction before) (simp_all add: Let_def)

subsection \<open>The scanner's lines\<close>

lemma last_Split_Cons: "sep \<noteq> [] \<Longrightarrow> last (a # Split s sep) = last (Split s sep)"
  by (simp add: Split_nonempty)

lemma linesOf_Nil: "linesOf [] = []"
  by (simp add: linesOf_def Split.simps)

lemma linesOf_no_newline: "s \<noteq> [] \<Longrightarrow> CHR 0x0A \<notin> set s \<Longrightarrow> linesOf s = [s]"
  by (simp add: linesOf_def Split_single_notin)

lemma linesOf_newline:
  "CHR 0x0A \<notin> set a \<Longrightarrow> linesOf (a @ CHR 0x0A # rest) = a # linesOf rest"
  by (simp add: linesOf_def Split_single_Cons Let_def Split_nonempty)

lemma scanTokens_linesOf:
  "length content < MaxScanTokenSize \<Longrightarrow> scanTokens content = map dropCR (linesOf content)"
proof (induction "length content" arbitrary: content rule: less_induct)
  case less
  show ?case
  proof (cases "content = []")
    case True
    then show ?thesis by (simp add: scanTokens.simps linesOf_Nil)
  next
    case ne: False
    show ?thesis
    proof (cases "CHR 0x0A \<in> set content")
      case False
      with ne less.prems show ?thesis
        by (subst scanTokens.simps) (simp add: Index_single linesOf_no_newline)
    next
      case True
      then obtain a rest where c: "content = a @ CHR 0x0A # rest" and a: "CHR 0x0A \<notin> set a"
        by (meson split_list_first)
      with less.prems have "scanTokens rest = map dropCR (linesOf rest)"
        by (intro less.hyps) simp_all
      with c a less.prems show ?thesis
        by (subst scanTokens.simps)
           (simp add: Index_single takeWhile_neq_append linesOf_newline)
    qed
  qed
qed

lemma TrimSuffix_snoc: "TrimSuffix (url @ [c]) [c] = url"
  by (simp add: TrimSuffix_def HasSuffix_def)

lemma scanTokens_too_long:
  assumes "MaxScanTokenSize \<le> n" and "c \<noteq> CHR 0x0A"
  shows "scanTokens (replicate n c @ CHR 0x0A # rest) = []"
proof -
  have "CHR 0x0A \<notin> set (replicate n c)"
    using assms(2) by auto
  then have "takeWhile (\<lambda>x. x \<noteq> CHR 0x0A) (replicate n c @ CHR 0x0A # rest) = replicate n c"
    by (rule takeWhile_neq_append)
  then have "Index (replicate n c @ CHR 0x0A # rest) [CHR 0x0A] = Some n"
    by (simp add: Index_single)
  with assms(1) show ?thesis
    by (subst scanTokens.simps) simp
qed

subsection \<open>What the image loop returns\<close>

text \<open>
  The first line whose trimmed text starts with \<^verbatim>\<open>![\<close> decides. When it holds a \<^verbatim>\<open>](\<close>,
  the text taken is what follows the first \<^verbatim>\<open>](\<close> up to the next \<^verbatim>\<open>](\<close> or the end of the
  line, without one closing parenthesis at its end.
\<close>

lemma findImage_first_match:
  assumes "list_all (\<lambda>t. \<not> HasPrefix (TrimSpace t) ''!['') before"
    and "HasPrefix (TrimSpace l) ''![''"
    and "Index (TrimSpace l) '']('' = Some i"
  shows "findImage path (before @ l # after)
           = Some (''https://xbarapp.com/docs/''
                     @ Join [Dir path,
                         TrimSuffix (case Index (drop (i + 2) (TrimSpace l)) '']('' of
                                       None \<Rightarrow> drop (i + 2) (TrimSpace l)
                                     | Some k \<Rightarrow> take k (drop (i + 2) (TrimSpace l))) '')''])
       \<and> (drop (i + 2) (TrimSpace l) = url @ '')'' \<and> CHR '')'' \<notin> set url
            \<and> Index url '']('' = None \<longrightarrow>
              findImage path (before @ l # after)
                = Some (''https://xbarapp.com/docs/'' @ Join [Dir path, url])
            \<and> textToNextParen (TrimSpace l) = Some url)
       \<and> (list_all (\<lambda>t. \<not> HasPrefix (TrimSpace t) ''!['') lines \<longrightarrow>
              findImage path lines = Some [])
       \<and> (length content < MaxScanTokenSize \<longrightarrow>
              scanTokens content = map dropCR (linesOf content))
       \<and> (processMarkdownFile ev g path dest src w0 = Returned (None, w') \<longrightarrow>
              (\<exists>b pd. ReadFile w0 src = Inr b
                 \<and> findImage path (scanTokens b) = Some (ImageURL pd)
                 \<and> out w' (Clean dest) = Some (OutFile (fst (template g pd)))))
       \<and> findImage ''2023/04/my-post.html'' (scanTokens ''![alt](images/hero.png)'')
            = Some ''https://xbarapp.com/docs/2023/04/images/hero.png''
       \<and> Dir ''2023/04/my-post.html'' = ''2023/04''"
proof -
  let ?tail = "drop (i + 2) (TrimSpace l)"
  have first: "findImage path (before @ l # after)
           = Some (''https://xbarapp.com/docs/''
                     @ Join [Dir path,
                         TrimSuffix (case Index ?tail '']('' of
                                       None \<Rightarrow> ?tail
                                     | Some k \<Rightarrow> take k ?tail) '')''])"
    using assms at_Split_1[of "''](''" "TrimSpace l" i]
    by (simp add: findImage_first_line list_all_iff cong: option.case_cong)
  have exact: "findImage path (before @ l # after)
                = Some (''https://xbarapp.com/docs/'' @ Join [Dir path, url])
            \<and> textToNextParen (TrimSpace l) = Some url"
    if "?tail = url @ '')''" "CHR '')'' \<notin> set url" "Index url '']('' = None"
  proof -
    from that(3) have "Index (url @ '')'') '']('' = None"
      by (rule Index_snoc_paren)
    with first that(1) have "findImage path (before @ l # after)
        = Some (''https://xbarapp.com/docs/'' @ Join [Dir path, url])"
      using TrimSuffix_snoc[of url "CHR '')''"] by simp
    moreover from that(1,2) assms(3) have "textToNextParen (TrimSpace l) = Some url"
      using takeWhile_neq_append[of "CHR '')''" url "[]"]
      by (simp add: textToNextParen_def)
    ultimately show ?thesis by simp
  qed
  have none: "findImage path lines = Some []"
    if "list_all (\<lambda>t. \<not> HasPrefix (TrimSpace t) ''!['') lines"
    using that by (simp add: findImage_no_line list_all_iff)
  have page: "\<exists>b pd. ReadFile w0 src = Inr b
                 \<and> findImage path (scanTokens b) = Some (ImageURL pd)
                 \<and> out w' (Clean dest) = Some (OutFile (fst (template g pd)))"
    if "processMarkdownFile ev g path dest src w0 = Returned (None, w')"
  proof -
    from processMarkdownFile_page[OF that] obtain ts b img title where
      "ReadFile w0 src = Inr b" "findImage path (scanTokens b) = Some img"
      "out w' (Clean dest) = Some (OutFile (fst (template g
          (pageData ev g path ts title (takeWhile (\<lambda>c. c \<noteq> CHR 0x0A) b) img (ToHTML ev b)))))"
      by blast
    then show ?thesis
      by (intro exI[of _ b]
            exI[of _ "pageData ev g path ts title (takeWhile (\<lambda>c. c \<noteq> CHR 0x0A) b) img
                        (ToHTML ev b)"])
         (simp add: pageData_def)
  qed
  have ex: "findImage ''2023/04/my-post.html'' (scanTokens ''![alt](images/hero.png)'')
            = Some ''https://xbarapp.com/docs/2023/04/images/hero.png''"
    by (simp add: strings_eval scan_eval path_eval Let_def)
  have dir: "Dir ''2023/04/my-post.html'' = ''2023/04''"
    by (simp add: strings_eval path_eval Let_def)
  from first exact none page ex dir scanTokens_linesOf[of content] show ?thesis
    by blast
qed

section \<open>The claims\<close>

text \<open>
  C6. For every destination-relative path whose first two segments are a four-digit
  year and a two-digit month (01 to 12), the month and the year are swapped into
  \<^verbatim>\<open>MM/YYYY\<close>, parsed with the layout \<^verbatim>\<open>01/2006\<close> and formatted as the month's name, a
  space and the year: the date string is that name followed by the year segment as it
  stands. The path \<^verbatim>\<open>2023/04/my-post.html\<close> gives \<^verbatim>\<open>April 2023\<close>.
\<close>

theorem C6_article_date:
  assumes "Split path ''/'' = yearStr # monthStr # rest"
    and "fourDigitYear yearStr"
    and "twoDigitMonth monthStr"
  shows "Parse_01_2006 (monthStr @ ''/'' @ yearStr)
           = Inr \<lparr>Year = decimal yearStr, Month = decimal monthStr\<rparr>
       \<and> Format_January_2006 \<lparr>Year = decimal yearStr, Month = decimal monthStr\<rparr>
           = longMonthNames ! (decimal monthStr - 1) @ '' '' @ yearStr
       \<and> articleTime path w
           = Returned (Inr (longMonthNames ! (decimal monthStr - 1) @ '' '' @ yearStr),
                       w\<lparr>logged := logged w @ [YearMonth yearStr monthStr]\<rparr>)
       \<and> articleTime ''2023/04/my-post.html'' w
           = Returned (Inr ''April 2023'', w\<lparr>logged := logged w @ [YearMonth ''2023'' ''04'']\<rparr>)"
proof -
  have ex: "Split ''2023/04/my-post.html'' ''/'' = [''2023'', ''04'', ''my-post.html'']"
    by (simp add: Split.simps HasPrefix_def)
  have "fourDigitYear ''2023''" and "twoDigitMonth ''04''"
    by (simp_all add: fourDigitYear_def twoDigitMonth_def digit_def decimal_def digitVal_def)
  then have "articleTime ''2023/04/my-post.html'' w
      = Returned (Inr ''April 2023'', w\<lparr>logged := logged w @ [YearMonth ''2023'' ''04'']\<rparr>)"
    using articleTime_ok[OF ex, of w]
    by (simp add: decimal_def digitVal_def longMonthNames_def)
  with assms show ?thesis
    by (simp add: Parse_01_2006_ok Format_January_2006_year articleTime_ok)
qed

theorem C6_article_date_witness:
  "Split ''2024/11/notes.html'' ''/'' = [''2024'', ''11'', ''notes.html'']
   \<and> fourDigitYear ''2024'' \<and> twoDigitMonth ''11''
   \<and> articleTime ''2024/11/notes.html'' exampleWorld
       = Returned (Inr ''November 2024'',
                   exampleWorld\<lparr>logged := logged exampleWorld @ [YearMonth ''2024'' ''11'']\<rparr>)"
proof -
  have h1: "Split ''2024/11/notes.html'' ''/'' = [''2024'', ''11'', ''notes.html'']"
    by (simp add: Split.simps HasPrefix_def)
  have h2: "fourDigitYear ''2024''"
    by (simp add: fourDigitYear_def digit_def)
  have h3: "twoDigitMonth ''11''"
    by (simp add: twoDigitMonth_def digit_def decimal_def digitVal_def)
  show ?thesis
    using h1 h2 h3 C6_article_date[OF h1 h2 h3, of exampleWorld]
    by (simp add: decimal_def digitVal_def longMonthNames_def)
qed

text \<open>
  C7. The title is the base name of the source path without its extension (the text
  from the last dot of the base name on), with every hyphen replaced by a space and
  nothing else changed. For a source whose extension is \<^verbatim>\<open>.md\<close> the base name is a stem
  followed by \<^verbatim>\<open>.md\<close> and the title is the stem with its hyphens replaced; a rendered
  page carries that title. The file name \<^verbatim>\<open>my-great-post.md\<close> gives \<^verbatim>\<open>my great post\<close>.
\<close>

theorem C7_title:
  "titleOf src
     = Some (map (\<lambda>c. if c = CHR ''-'' then CHR '' '' else c)
               (take (length (Base src) - length (Ext (Base src))) (Base src)))
   \<and> take (length (Base src) - length (Ext (Base src))) (Base src) @ Ext (Base src) = Base src
   \<and> (Ext src = ''.md'' \<longrightarrow>
        (\<exists>stem. Base src = stem @ ''.md''
           \<and> titleOf src = Some (map (\<lambda>c. if c = CHR ''-'' then CHR '' '' else c) stem)))
   \<and> (processMarkdownFile ev g path dest src w0 = Returned (None, w') \<longrightarrow>
        (\<exists>pd. out w' (Clean dest) = Some (OutFile (fst (template g pd)))
           \<and> titleOf src = Some (Title pd)))
   \<and> titleOf ''my-great-post.md'' = Some ''my great post''"
proof -
  have md: "\<exists>stem. Base src = stem @ ''.md''
              \<and> titleOf src = Some (map (\<lambda>c. if c = CHR ''-'' then CHR '' '' else c) stem)"
    if "Ext src = ''.md''"
  proof -
    from Ext_md_Base[OF that] obtain stem where
      "Base src = stem @ ''.md''" "Ext (Base src) = ''.md''" by blast
    then show ?thesis by (simp add: titleOf_eq)
  qed
  have page: "\<exists>pd. out w' (Clean dest) = Some (OutFile (fst (template g pd)))
                \<and> titleOf src = Some (Title pd)"
    if "processMarkdownFile ev g path dest src w0 = Returned (None, w')"
  proof -
    from processMarkdownFile_page[OF that] obtain ts b img title where
      "titleOf src = Some title"
      "out w' (Clean dest) = Some (OutFile (fst (template g
          (pageData ev g path ts title (takeWhile (\<lambda>c. c \<noteq> CHR 0x0A) b) img (ToHTML ev b)))))"
      by blast
    then show ?thesis
      by (intro exI[of _ "pageData ev g path ts title (takeWhile (\<lambda>c. c \<noteq> CHR 0x0A) b) img (ToHTML ev b)"])
         (simp add: pageData_def)
  qed
  have "titleOf ''my-great-post.md'' = Some ''my great post''"
    by (simp add: titleOf_eq Base_def Ext_def Let_def)
  with md page show ?thesis
    by (simp add: titleOf_eq Ext_take)
qed

theorem C7_title_witness:
  "Ext ''../../xbarapp.com/articles/2023/04/a-b-c.md'' = ''.md''
   \<and> Base ''../../xbarapp.com/articles/2023/04/a-b-c.md'' = ''a-b-c.md''
   \<and> titleOf ''../../xbarapp.com/articles/2023/04/a-b-c.md'' = Some ''a b c''"
  using C7_title[of "''../../xbarapp.com/articles/2023/04/a-b-c.md''"]
  by (simp add: Base_def Ext_def Let_def)

text \<open>
  C8. The first element of the content split at newlines always exists and is the
  content up to its first newline (all of it when it has none). When a render
  succeeds, the page written to the destination was made from page data whose
  description is that first line of the source file, unchanged.
\<close>

theorem C8_description:
  "at (Split b [CHR 0x0A]) 0 = Some (takeWhile (\<lambda>c. c \<noteq> CHR 0x0A) b)
   \<and> (processMarkdownFile ev g path dest src w0 = Returned (None, w') \<longrightarrow>
        (\<exists>content pd. ReadFile w0 src = Inr content
           \<and> Desc pd = takeWhile (\<lambda>c. c \<noteq> CHR 0x0A) content
           \<and> out w' (Clean dest) = Some (OutFile (fst (template g pd)))))"
proof -
  have "\<exists>content pd. ReadFile w0 src = Inr content
           \<and> Desc pd = takeWhile (\<lambda>c. c \<noteq> CHR 0x0A) content
           \<and> out w' (Clean dest) = Some (OutFile (fst (template g pd)))"
    if "processMarkdownFile ev g path dest src w0 = Returned (None, w')"
  proof -
    from processMarkdownFile_page[OF that] obtain ts content img title where
      "ReadFile w0 src = Inr content"
      "out w' (Clean dest) = Some (OutFile (fst (template g
          (pageData ev g path ts title (takeWhile (\<lambda>c. c \<noteq> CHR 0x0A) content) img
             (ToHTML ev content)))))"
      by blast
    then show ?thesis
      by (intro exI[of _ content]
            exI[of _ "pageData ev g path ts title (takeWhile (\<lambda>c. c \<noteq> CHR 0x0A) content) img
                        (ToHTML ev content)"])
         (simp add: pageData_def)
  qed
  then show ?thesis
    by (simp add: at_Split_0_single)
qed

theorem C8_description_witness:
  "(case processMarkdownFile exampleEnv exampleGenerator ''2023/04/my-post.html''
          ''../../xbarapp.com/public/docs/2023/04/my-post.html''
          ''../../xbarapp.com/articles/2023/04/My-Post.md'' exampleWorld of
      Returned (None, w') \<Rightarrow>
        (\<exists>pd. Desc pd = ''first line''
           \<and> out w' ''../../xbarapp.com/public/docs/2023/04/my-post.html''
               = Some (OutFile (fst (exampleTemplate pd))))
    | _ \<Rightarrow> False)"
proof -
  let ?p = "processMarkdownFile exampleEnv exampleGenerator ''2023/04/my-post.html''
          ''../../xbarapp.com/public/docs/2023/04/my-post.html''
          ''../../xbarapp.com/articles/2023/04/My-Post.md'' exampleWorld"
  have "\<exists>w'. ?p = Returned (None, w')"
    by (simp add: strings_eval scan_eval time_eval path_eval fs_eval bloggen_eval
          example_eval Let_def)
  then obtain w' where p: "?p = Returned (None, w')"
    by blast
  have rd: "ReadFile exampleWorld ''../../xbarapp.com/articles/2023/04/My-Post.md''
      = Inr ''first line\<newline>  ![alt](images/hero.png)\<newline>rest''"
    by (simp add: strings_eval path_eval fs_eval example_eval Let_def)
  have cl: "Clean ''../../xbarapp.com/public/docs/2023/04/my-post.html''
      = ''../../xbarapp.com/public/docs/2023/04/my-post.html''"
    by (simp add: strings_eval path_eval Let_def)
  from C8_description[of "[]" exampleEnv exampleGenerator "''2023/04/my-post.html''"
          "''../../xbarapp.com/public/docs/2023/04/my-post.html''"
          "''../../xbarapp.com/articles/2023/04/My-Post.md''" exampleWorld w'] p rd cl
  show ?thesis
    by (auto simp: exampleGenerator_def)
qed

text \<open>
  C1 (the code departs from it). A destination-relative path with a single segment
  has no second element for \<^verbatim>\<open>pathSegs[1]\<close>: \<^verbatim>\<open>processMarkdownFile\<close> panics before it
  parses anything, and the panic of one goroutine ends the run. With an article
  directly in the source folder the run crashes, although the other article is well
  placed.
\<close>

theorem C1_single_segment_crashes_run:
  "(CHR ''/'' \<notin> set path \<longrightarrow> processMarkdownFile ev g path dest src w = Panicked)
   \<and> destOf exampleEnv ''../../xbarapp.com/articles/readme.md'' ''readme.md''
       = Some (''readme.html'', ''../../xbarapp.com/public/docs/readme.html'')
   \<and> run exampleEnv rootArticleWorld = Crashed"
proof -
  have "processMarkdownFile ev g path dest src w = Panicked" if "CHR ''/'' \<notin> set path"
    using that
    by (simp add: processMarkdownFile_def articleTime_def Let_def Split_single_notin at_def)
  moreover have "destOf exampleEnv ''../../xbarapp.com/articles/readme.md'' ''readme.md''
       = Some (''readme.html'', ''../../xbarapp.com/public/docs/readme.html'')"
    by (simp add: strings_eval path_eval bloggen_eval example_eval Let_def)
  moreover have "run exampleEnv rootArticleWorld = Crashed"
    by (simp add: strings_eval scan_eval time_eval path_eval fs_eval bloggen_eval
          example_eval rootArticleWorld_def Let_def)
  ultimately show ?thesis by blast
qed

theorem C1_single_segment_witness:
  "CHR ''/'' \<notin> set ''readme.html''
   \<and> processMarkdownFile exampleEnv exampleGenerator ''readme.html''
        ''../../xbarapp.com/public/docs/readme.html''
        ''../../xbarapp.com/articles/readme.md'' rootArticleWorld = Panicked"
  using C1_single_segment_crashes_run[of "''readme.html''" exampleEnv exampleGenerator
          "''../../xbarapp.com/public/docs/readme.html''"
          "''../../xbarapp.com/articles/readme.md''" rootArticleWorld]
  by simp

text \<open>
  C2 (the code departs from it). \<^verbatim>\<open>processMarkdownFile\<close> panics on a well-placed
  article when the first line that starts with \<^verbatim>\<open>![\<close> holds no \<^verbatim>\<open>](\<close>: the split has one
  piece and \<^verbatim>\<open>[1]\<close> is out of range. The run crashes.
\<close>

theorem C2_image_line_without_link_panics:
  "findImage ''2023/04/post.html'' (scanTokens ''intro\<newline>![diagram to come\<newline>text'') = None
   \<and> processMarkdownFile exampleEnv exampleGenerator ''2023/04/post.html''
        ''../../xbarapp.com/public/docs/2023/04/post.html''
        ''../../xbarapp.com/articles/2023/04/post.md'' brokenImageWorld = Panicked
   \<and> run exampleEnv brokenImageWorld = Crashed"
proof -
  have "findImage ''2023/04/post.html'' (scanTokens ''intro\<newline>![diagram to come\<newline>text'') = None"
    by (simp add: strings_eval scan_eval)
  moreover have "processMarkdownFile exampleEnv exampleGenerator ''2023/04/post.html''
        ''../../xbarapp.com/public/docs/2023/04/post.html''
        ''../../xbarapp.com/articles/2023/04/post.md'' brokenImageWorld = Panicked"
    by (simp add: strings_eval scan_eval time_eval path_eval fs_eval bloggen_eval
          example_eval brokenImageWorld_def Let_def)
  moreover have "run exampleEnv brokenImageWorld = Crashed"
    by (simp add: strings_eval scan_eval time_eval path_eval fs_eval bloggen_eval
          example_eval brokenImageWorld_def Let_def)
  ultimately show ?thesis by blast
qed


text \<open>
  C3 (the code departs from it). The spec's own example holds, but the image text
  is not cut at the closing parenthesis: \<^verbatim>\<open>TrimSuffix\<close> removes a parenthesis only at
  the very end of the line, so text after the image stays in the URL; a second \<^verbatim>\<open>](\<close>
  on the line cuts the text short; and a line of 64 KiB ends the scan, so that an
  image line after it is not found.
\<close>

theorem C3_image_text_not_cut_at_paren:
  "findImage ''2023/04/my-post.html'' (scanTokens ''![alt](images/hero.png)'')
       = Some ''https://xbarapp.com/docs/2023/04/images/hero.png''
   \<and> textToNextParen (TrimSpace ''![alt](images/hero.png) caption'') = Some ''images/hero.png''
   \<and> findImage ''2023/04/my-post.html'' (scanTokens ''![alt](images/hero.png) caption'')
       = Some ''https://xbarapp.com/docs/2023/04/images/hero.png) caption''
   \<and> textToNextParen (TrimSpace ''![a](b](c)'') = Some ''b](c''
   \<and> findImage ''2023/04/my-post.html'' (scanTokens ''![a](b](c)'')
       = Some ''https://xbarapp.com/docs/2023/04/b''
   \<and> findImage ''2023/04/my-post.html''
         (scanTokens (replicate 65536 CHR ''x'' @ CHR 0x0A # ''![alt](images/hero.png)''))
       = Some []"
proof -
  have "scanTokens (replicate 65536 CHR ''x'' @ CHR 0x0A # ''![alt](images/hero.png)'') = []"
    by (rule scanTokens_too_long) (simp_all add: MaxScanTokenSize_def)
  then have "findImage ''2023/04/my-post.html''
         (scanTokens (replicate 65536 CHR ''x'' @ CHR 0x0A # ''![alt](images/hero.png)''))
       = Some []"
    by (simp only: findImage.simps)
  moreover have
    "findImage ''2023/04/my-post.html'' (scanTokens ''![alt](images/hero.png)'')
       = Some ''https://xbarapp.com/docs/2023/04/images/hero.png''"
    "textToNextParen (TrimSpace ''![alt](images/hero.png) caption'') = Some ''images/hero.png''"
    "findImage ''2023/04/my-post.html'' (scanTokens ''![alt](images/hero.png) caption'')
       = Some ''https://xbarapp.com/docs/2023/04/images/hero.png) caption''"
    "textToNextParen (TrimSpace ''![a](b](c)'') = Some ''b](c''"
    "findImage ''2023/04/my-post.html'' (scanTokens ''![a](b](c)'')
       = Some ''https://xbarapp.com/docs/2023/04/b''"
    by (simp_all add: strings_eval scan_eval path_eval textToNextParen_def Let_def)
  ultimately show ?thesis by blast
qed

text \<open>
  C4. When the walk ends without error, an entry \<open>stem.md\<close> of the source tree that is
  not a directory and whose name does not start with a dot is recorded under its
  path with its relative path, and the job computes from them the
  destination-relative path and the destination: the directory of the relative path
  followed by the lower-cased name \<open>stem.html\<close>, below the destination folder for the
  latter. When the lower-cased name is a file name (as it is for every ASCII stem,
  where the lower-casing is byte by byte), these are the mirrored paths \<open>ds/lowered\<close>
  and \<open>destFolder/ds/lowered\<close>, and a render that succeeds leaves a file there.
  \<^verbatim>\<open>2023/04/My-Post.md\<close> gives \<^verbatim>\<open>2023/04/my-post.html\<close>.
\<close>

theorem C4_destination_path:
  assumes "articlesTree w = Some t" and "wfTree t" and "isFolder t"
    and "Walk w sourceArticlesFolder walkFn (w, []) = (None, (w', articles))"
    and "descend t (ds @ [stem @ ''.md'']) = Some n" and "\<not> isFolder n"
    and "\<not> dotName (stem @ ''.md'')"
    and "lowered = ToLower (unicodeLower ev) (stem @ ''.html'')"
  shows "map_of articles (srcPath (ds @ [stem @ ''.md'']))
           = Some (strings_Join (ds @ [stem @ ''.md'']) ''/'')
       \<and> destOf ev (srcPath (ds @ [stem @ ''.md''])) (strings_Join (ds @ [stem @ ''.md'']) ''/'')
           = Some (Join [Dir (strings_Join (ds @ [stem @ ''.md'']) ''/''), lowered],
                   Join [destFolder, Dir (strings_Join (ds @ [stem @ ''.md'']) ''/''), lowered])
       \<and> (isASCII stem \<longrightarrow> lowered = map lowerByte stem @ ''.html'' \<and> validName lowered)
       \<and> (validName lowered \<longrightarrow>
            destOf ev (srcPath (ds @ [stem @ ''.md''])) (strings_Join (ds @ [stem @ ''.md'']) ''/'')
              = Some (strings_Join (ds @ [lowered]) ''/'', dstPath (ds @ [lowered])))
       \<and> (\<forall>g w0 w1.
            validName lowered
            \<and> processMarkdownFile ev g (strings_Join (ds @ [lowered]) ''/'') (dstPath (ds @ [lowered]))
                 (srcPath (ds @ [stem @ ''.md''])) w0 = Returned (None, w1)
            \<longrightarrow> (\<exists>pd. out w1 (dstPath (ds @ [lowered])) = Some (OutFile (fst (template g pd)))))
       \<and> destOf ev ''../../xbarapp.com/articles/2023/04/My-Post.md'' ''2023/04/My-Post.md''
           = Some (''2023/04/my-post.html'', ''../../xbarapp.com/public/docs/2023/04/my-post.html'')"
proof -
  let ?ns = "ds @ [stem @ ''.md'']"
  from assms(2,5) have v: "\<forall>m\<in>set ?ns. validName m"
    by (rule descend_valid)
  then have vd: "\<forall>m\<in>set ds. validName m" and vn: "validName (stem @ ''.md'')"
    by simp_all
  from vn have ns: "CHR ''/'' \<notin> set stem" and nn: "CHR ''/'' \<notin> set (stem @ ''.md'')"
    by (simp_all add: validName_def)
  have "mdName (last ?ns)"
    using assms(7) by (simp add: mdName_def Ext_md)
  from Walk_records[OF assms(1-6) this]
  have rec: "map_of articles (srcPath ?ns) = Some (strings_Join ?ns ''/'')" .
  have b: "Base (srcPath ?ns) = stem @ ''.md''"
    using Base_srcPath(1)[OF v] by simp
  have "sliceTo (stem @ ''.md'') (int (length (stem @ ''.md'')) - 2) = Some (stem @ ''.'')"
    by (simp add: sliceTo_def nat_add_distrib)
  with b have gen: "destOf ev (srcPath ?ns) (strings_Join ?ns ''/'')
           = Some (Join [Dir (strings_Join ?ns ''/''), lowered],
                   Join [destFolder, Dir (strings_Join ?ns ''/''), lowered])"
    by (simp add: destOf_def Let_def assms(8))
  have asc: "lowered = map lowerByte stem @ ''.html'' \<and> validName lowered" if "isASCII stem"
    unfolding assms(8) ToLower_html[OF that] using validName_lowered[OF ns] by simp
  have mir: "destOf ev (srcPath ?ns) (strings_Join ?ns ''/'')
              = Some (strings_Join (ds @ [lowered]) ''/'', dstPath (ds @ [lowered]))"
    if vl: "validName lowered"
    unfolding gen
    by (simp only: Join_Dir_name[OF vd nn vl] Join_destFolder_Dir_name[OF vd nn vl])
  have page: "\<exists>pd. out w1 (dstPath (ds @ [lowered])) = Some (OutFile (fst (template g pd)))"
    if vl: "validName lowered"
      and p: "processMarkdownFile ev g (strings_Join (ds @ [lowered]) ''/'') (dstPath (ds @ [lowered]))
          (srcPath ?ns) w0 = Returned (None, w1)" for g w0 w1
  proof -
    have "Clean (dstPath (ds @ [lowered])) = dstPath (ds @ [lowered])"
      using vd vl by (intro Clean_dstPath) simp
    with processMarkdownFile_page[OF p] show ?thesis
      by auto
  qed
  have lc: "char_of (109 :: nat) = CHR ''m''" "char_of (112 :: nat) = CHR ''p''"
    by code_simp+
  have ex: "destOf ev ''../../xbarapp.com/articles/2023/04/My-Post.md'' ''2023/04/My-Post.md''
           = Some (''2023/04/my-post.html'', ''../../xbarapp.com/public/docs/2023/04/my-post.html'')"
    by (simp add: strings_eval path_eval bloggen_eval lc Let_def)
  from rec gen asc mir page ex show ?thesis
    by blast
qed

theorem C4_destination_path_witness:
  "wfTree exampleTree \<and> isFolder exampleTree
   \<and> descend exampleTree [''2023'', ''04'', ''My-Post.md'']
       = Some (File ''first line\<newline>  ![alt](images/hero.png)\<newline>rest'')
   \<and> \<not> dotName ''My-Post.md'' \<and> isASCII ''My-Post''
   \<and> ToLower (unicodeLower exampleEnv) ''My-Post.html'' = ''my-post.html''
   \<and> validName ''my-post.html''
   \<and> (\<exists>w' articles.
         Walk exampleWorld sourceArticlesFolder walkFn (exampleWorld, []) = (None, (w', articles))
         \<and> map_of articles ''../../xbarapp.com/articles/2023/04/My-Post.md''
             = Some ''2023/04/My-Post.md'')
   \<and> destOf exampleEnv ''../../xbarapp.com/articles/2023/04/My-Post.md'' ''2023/04/My-Post.md''
       = Some (''2023/04/my-post.html'', ''../../xbarapp.com/public/docs/2023/04/my-post.html'')
   \<and> (\<exists>w1 pd.
         processMarkdownFile exampleEnv exampleGenerator ''2023/04/my-post.html''
           ''../../xbarapp.com/public/docs/2023/04/my-post.html''
           ''../../xbarapp.com/articles/2023/04/My-Post.md'' exampleWorld = Returned (None, w1)
         \<and> out w1 ''../../xbarapp.com/public/docs/2023/04/my-post.html''
             = Some (OutFile (fst (exampleTemplate pd))))"
proof -
  from exampleWalk obtain w' articles where
    wk: "Walk exampleWorld sourceArticlesFolder walkFn (exampleWorld, []) = (None, (w', articles))"
    by blast
  have t: "articlesTree exampleWorld = Some exampleTree"
    by (simp add: exampleWorld_def)
  have wf: "wfTree exampleTree" and f: "isFolder exampleTree"
    using exampleTree_wf by simp_all
  have d: "descend exampleTree ([''2023'', ''04''] @ [''My-Post'' @ ''.md''])
       = Some (File ''first line\<newline>  ![alt](images/hero.png)\<newline>rest'')"
    by (simp add: exampleTree_def)
  have n: "\<not> dotName (''My-Post'' @ ''.md'')"
    by (simp add: dotName_def HasPrefix_def)
  have nf: "\<not> isFolder (File ''first line\<newline>  ![alt](images/hero.png)\<newline>rest'')"
    by (simp add: isFolder_def)
  have a: "isASCII ''My-Post''"
    by (simp add: isASCII_def)
  have lc: "map lowerByte ''My-Post'' = ''my-post''"
    by code_simp
  have l: "''my-post.html'' = ToLower (unicodeLower exampleEnv) (''My-Post'' @ ''.html'')"
    unfolding ToLower_html[OF a] lc by simp
  have vl: "validName ''my-post.html''"
    by (simp add: validName_def)
  have s: "srcPath ([''2023'', ''04''] @ [''My-Post'' @ ''.md''])
             = ''../../xbarapp.com/articles/2023/04/My-Post.md''"
    "strings_Join ([''2023'', ''04''] @ [''My-Post'' @ ''.md'']) ''/'' = ''2023/04/My-Post.md''"
    "strings_Join ([''2023'', ''04''] @ [''my-post.html'']) ''/'' = ''2023/04/my-post.html''"
    "dstPath ([''2023'', ''04''] @ [''my-post.html''])
             = ''../../xbarapp.com/public/docs/2023/04/my-post.html''"
    by (simp_all add: dstPath_def srcPath_def)
  note c = C4_destination_path[OF t wf f wk d nf n l, unfolded s]
  let ?p = "processMarkdownFile exampleEnv exampleGenerator ''2023/04/my-post.html''
          ''../../xbarapp.com/public/docs/2023/04/my-post.html''
          ''../../xbarapp.com/articles/2023/04/My-Post.md'' exampleWorld"
  have "\<exists>w1. ?p = Returned (None, w1)"
    by (simp add: strings_eval scan_eval time_eval path_eval fs_eval bloggen_eval
          example_eval Let_def)
  then obtain w1 where p: "?p = Returned (None, w1)"
    by blast
  from c[THEN conjunct2, THEN conjunct2, THEN conjunct2, THEN conjunct2, THEN conjunct1,
         rule_format, of exampleGenerator exampleWorld w1] vl p
  obtain pd where "out w1 ''../../xbarapp.com/public/docs/2023/04/my-post.html''
             = Some (OutFile (fst (exampleTemplate pd)))"
    by (auto simp: exampleGenerator_def)
  with p have r3: "\<exists>w1 pd. ?p = Returned (None, w1)
         \<and> out w1 ''../../xbarapp.com/public/docs/2023/04/my-post.html''
             = Some (OutFile (fst (exampleTemplate pd)))"
    by blast
  from c have r1: "map_of articles ''../../xbarapp.com/articles/2023/04/My-Post.md''
             = Some ''2023/04/My-Post.md''"
    by (rule conjunct1)
  have r2: "destOf exampleEnv ''../../xbarapp.com/articles/2023/04/My-Post.md''
         ''2023/04/My-Post.md''
       = Some (''2023/04/my-post.html'', ''../../xbarapp.com/public/docs/2023/04/my-post.html'')"
    using c[THEN conjunct2, THEN conjunct2, THEN conjunct2, THEN conjunct1] vl by simp
  from n have n': "\<not> dotName ''My-Post.md''" by simp
  from d have d': "descend exampleTree [''2023'', ''04'', ''My-Post.md'']
       = Some (File ''first line\<newline>  ![alt](images/hero.png)\<newline>rest'')"
    by simp
  from l have l': "ToLower (unicodeLower exampleEnv) ''My-Post.html'' = ''my-post.html''"
    by simp
  from wf f d' n' a l' vl wk r1 r2 r3 show ?thesis
    by blast
qed



text \<open>
  C9. The function handed to the walk returns no error for a directory whatever its
  name, so the walk goes on below it, and it passes over a file by the file's own
  name only. When the walk ends without error, a file below a directory whose name
  starts with a dot, with a name of its own that does not, has been copied when its
  extension is not \<^verbatim>\<open>.md\<close> and recorded as an article when it is; in the example run
  the picture inside \<^verbatim>\<open>.drafts\<close> is copied and the article inside it rendered.
\<close>

theorem C9_dot_directories_walked:
  assumes "articlesTree w = Some t" and "wfTree t" and "isFolder t"
    and "Walk w sourceArticlesFolder walkFn (w, []) = (None, (w', articles))"
    and "descend t (ds @ [name]) = Some (File content)"
    and "d \<in> set ds" and "dotName d"
    and "\<not> dotName name"
  shows "(\<forall>p n s. isFolder n \<longrightarrow> walkFn p (Some (infoOf p n)) None s = (None, s))
       \<and> (\<forall>ns n s. ns \<noteq> [] \<and> (\<forall>m\<in>set ns. validName m) \<and> \<not> isFolder n \<and> dotName (last ns)
            \<longrightarrow> walkFn (srcPath ns) (Some (infoOf (srcPath ns) n)) None s = (None, s))
       \<and> (Ext name \<noteq> ''.md'' \<longrightarrow> out w' (dstPath (ds @ [name])) = Some (OutFile content))
       \<and> (Ext name = ''.md'' \<longrightarrow>
            map_of articles (srcPath (ds @ [name])) = Some (strings_Join (ds @ [name]) ''/''))
       \<and> (case run exampleEnv dotDirWorld of
            Exit0 w'' \<Rightarrow>
              out w'' ''../../xbarapp.com/public/docs/2023/04/.drafts/pic.png''
                = Some (OutFile ''PNG'')
              \<and> out w'' ''../../xbarapp.com/public/docs/2023/04/.drafts/post.html''
                = Some (OutFile ''post|April 2023|draft||draft'')
          | _ \<Rightarrow> False)"
proof -
  have ne: "ds @ [name] \<noteq> []" by simp
  have nf: "\<not> isFolder (File content)"
    by (simp add: isFolder_def)
  have "out w' (dstPath (ds @ [name])) = Some (OutFile content)" if "Ext name \<noteq> ''.md''"
  proof -
    from that assms(8) have "assetName (last (ds @ [name]))"
      by (simp add: assetName_def)
    from Walk_copies(1)[OF assms(1-5) ne this] show ?thesis .
  qed
  moreover have "map_of articles (srcPath (ds @ [name])) = Some (strings_Join (ds @ [name]) ''/'')"
    if "Ext name = ''.md''"
  proof -
    from that assms(8) have "mdName (last (ds @ [name]))"
      by (simp add: mdName_def)
    from Walk_records[OF assms(1-5) nf this] show ?thesis .
  qed
  moreover have "(case run exampleEnv dotDirWorld of
            Exit0 w'' \<Rightarrow>
              out w'' ''../../xbarapp.com/public/docs/2023/04/.drafts/pic.png''
                = Some (OutFile ''PNG'')
              \<and> out w'' ''../../xbarapp.com/public/docs/2023/04/.drafts/post.html''
                = Some (OutFile ''post|April 2023|draft||draft'')
          | _ \<Rightarrow> False)"
    by (simp add: strings_eval scan_eval time_eval path_eval fs_eval bloggen_eval
          example_eval dotDirWorld_def char_of_digits Let_def)
  moreover have "walkFn (srcPath ns) (Some (infoOf (srcPath ns) n)) None s = (None, s)"
    if "ns \<noteq> []" "\<forall>m\<in>set ns. validName m" "\<not> isFolder n" "dotName (last ns)"
    for ns n and s :: "world \<times> (string \<times> string) list"
    using walkFn_at[OF that(1,2), of n "fst s" "snd s"] that(3,4) by simp
  ultimately show ?thesis
    by (simp add: walkFn_folder)
qed

theorem C9_dot_directories_walked_witness:
  "dotName ''.drafts'' \<and> \<not> dotName ''pic.png'' \<and> \<not> dotName ''post.md''
   \<and> Ext ''pic.png'' \<noteq> ''.md'' \<and> Ext ''post.md'' = ''.md''
   \<and> (\<exists>t w' articles.
         articlesTree dotDirWorld = Some t \<and> wfTree t \<and> isFolder t
         \<and> descend t [''2023'', ''04'', ''.drafts'', ''pic.png''] = Some (File ''PNG'')
         \<and> descend t [''2023'', ''04'', ''.drafts'', ''post.md''] = Some (File ''draft'')
         \<and> Walk dotDirWorld sourceArticlesFolder walkFn (dotDirWorld, []) = (None, (w', articles))
         \<and> out w' ''../../xbarapp.com/public/docs/2023/04/.drafts/pic.png'' = Some (OutFile ''PNG'')
         \<and> map_of articles ''../../xbarapp.com/articles/2023/04/.drafts/post.md''
             = Some ''2023/04/.drafts/post.md'')"
proof -
  from dotDirWalk obtain w' articles where
    wk: "Walk dotDirWorld sourceArticlesFolder walkFn (dotDirWorld, []) = (None, (w', articles))"
    by blast
  obtain t where t: "articlesTree dotDirWorld = Some t"
    by (simp add: dotDirWorld_def)
  from dotDirTree_wf[OF t] have wf: "wfTree t" and f: "isFolder t"
    by simp_all
  have d1: "descend t ([''2023'', ''04'', ''.drafts''] @ [''pic.png'']) = Some (File ''PNG'')"
    and d2: "descend t ([''2023'', ''04'', ''.drafts''] @ [''post.md'']) = Some (File ''draft'')"
    using t by (auto simp: dotDirWorld_def)
  have m: "''.drafts'' \<in> set [''2023'', ''04'', ''.drafts'']"
    by simp
  have n: "dotName ''.drafts''" "\<not> dotName ''pic.png''" "\<not> dotName ''post.md''"
    by (simp_all add: dotName_def HasPrefix_def)
  have e: "Ext ''pic.png'' \<noteq> ''.md''" "Ext ''post.md'' = ''.md''"
    by (simp_all add: Ext_def)
  have s: "dstPath ([''2023'', ''04'', ''.drafts''] @ [''pic.png''])
             = ''../../xbarapp.com/public/docs/2023/04/.drafts/pic.png''"
    "srcPath ([''2023'', ''04'', ''.drafts''] @ [''post.md''])
             = ''../../xbarapp.com/articles/2023/04/.drafts/post.md''"
    "strings_Join ([''2023'', ''04'', ''.drafts''] @ [''post.md'']) ''/'' = ''2023/04/.drafts/post.md''"
    by (simp_all add: dstPath_def srcPath_def)
  from C9_dot_directories_walked[OF t wf f wk d1 m n(1) n(2)] e(1)
  have r1: "out w' ''../../xbarapp.com/public/docs/2023/04/.drafts/pic.png'' = Some (OutFile ''PNG'')"
    unfolding s by blast
  from C9_dot_directories_walked[OF t wf f wk d2 m n(1) n(3)] e(2)
  have r2: "map_of articles ''../../xbarapp.com/articles/2023/04/.drafts/post.md''
             = Some ''2023/04/.drafts/post.md''"
    unfolding s by blast
  from d1 d2 have "descend t [''2023'', ''04'', ''.drafts'', ''pic.png''] = Some (File ''PNG'')"
    "descend t [''2023'', ''04'', ''.drafts'', ''post.md''] = Some (File ''draft'')"
    by simp_all
  with t wf f wk r1 r2 n e show ?thesis
    by blast
qed

text \<open>
  C10. When the walk ends without error, a file with the extension \<^verbatim>\<open>.MD\<close>, \<^verbatim>\<open>.Md\<close> or
  \<^verbatim>\<open>.markdown\<close> (and a name that does not start with a dot) has been copied with its
  bytes and is not among the articles; of the files the walk does not pass over,
  exactly those with the extension \<^verbatim>\<open>.md\<close> are recorded. Every recorded path has the
  extension \<^verbatim>\<open>.md\<close>, so its base name is a stem followed by \<^verbatim>\<open>.md\<close>, and the job's
  file name is the lower-cased stem followed by \<^verbatim>\<open>.html\<close>.
\<close>

theorem C10_exact_md_extension:
  assumes "articlesTree w = Some t" and "wfTree t" and "isFolder t"
    and "Walk w sourceArticlesFolder walkFn (w, []) = (None, (w', articles))"
  shows "(\<forall>ns content.
            descend t ns = Some (File content) \<and> \<not> dotName (last ns)
            \<and> (Ext (last ns) = ''.MD'' \<or> Ext (last ns) = ''.Md'' \<or> Ext (last ns) = ''.markdown'')
            \<longrightarrow> out w' (dstPath ns) = Some (OutFile content)
                \<and> map_of articles (srcPath ns) = None)
       \<and> (\<forall>ns n.
            descend t ns = Some n \<and> \<not> isFolder n \<and> \<not> dotName (last ns)
            \<longrightarrow> (map_of articles (srcPath ns) = Some (strings_Join ns ''/'')) = (Ext (last ns) = ''.md'')
                \<and> (map_of articles (srcPath ns) = None) = (Ext (last ns) \<noteq> ''.md''))
       \<and> (\<forall>p rel. (p, rel) \<in> set articles \<longrightarrow>
            Ext p = ''.md''
            \<and> (\<exists>stem. Base p = stem @ ''.md''
                 \<and> destOf ev p rel
                     = Some (Join [Dir rel, ToLower (unicodeLower ev) (stem @ ''.html'')],
                             Join [destFolder, Dir rel, ToLower (unicodeLower ev) (stem @ ''.html'')])))
       \<and> Ext ''NOTES.MD'' = ''.MD'' \<and> Ext ''Notes.Md'' = ''.Md''
       \<and> Ext ''notes.markdown'' = ''.markdown''"
proof -
  have keys: "Ext p = ''.md''" if "(p, rel) \<in> set articles" for p rel
    using Walk_keys_md[OF assms(4)] that by fastforce
  have other: "map_of articles (srcPath ns) = None"
    if "descend t ns = Some n" "\<not> isFolder n" "Ext (last ns) \<noteq> ''.md''" for ns n
  proof (rule ccontr)
    assume "map_of articles (srcPath ns) \<noteq> None"
    then obtain rel where "(srcPath ns, rel) \<in> set articles"
      by (auto dest: map_of_SomeD)
    then have e: "Ext (srcPath ns) = ''.md''"
      by (rule keys)
    from that(1,2) assms(3) have ne: "ns \<noteq> []"
      by (cases ns) auto
    from assms(2) that(1) have "\<forall>m\<in>set ns. validName m"
      by (rule descend_valid)
    from Base_srcPath(2)[OF this ne] e that(3) show False
      by simp
  qed
  have art: "map_of articles (srcPath ns) = Some (strings_Join ns ''/'')"
    if "descend t ns = Some n" "\<not> isFolder n" "\<not> dotName (last ns)" "Ext (last ns) = ''.md''"
    for ns n
  proof -
    from that(3,4) have "mdName (last ns)"
      by (simp add: mdName_def)
    from Walk_records[OF assms(1-4) that(1,2) this] show ?thesis .
  qed
  have asset: "out w' (dstPath ns) = Some (OutFile content) \<and> map_of articles (srcPath ns) = None"
    if "descend t ns = Some (File content)" "\<not> dotName (last ns)" "Ext (last ns) \<noteq> ''.md''"
    for ns content
  proof -
    from assms(3) that(1) have ne: "ns \<noteq> []"
      by (rule descend_file_ne)
    from that(2,3) have "assetName (last ns)"
      by (simp add: assetName_def)
    from Walk_copies[OF assms(1-4) that(1) ne this] show ?thesis by simp
  qed
  have p1: "\<forall>ns content.
            descend t ns = Some (File content) \<and> \<not> dotName (last ns)
            \<and> (Ext (last ns) = ''.MD'' \<or> Ext (last ns) = ''.Md'' \<or> Ext (last ns) = ''.markdown'')
            \<longrightarrow> out w' (dstPath ns) = Some (OutFile content)
                \<and> map_of articles (srcPath ns) = None"
  proof (intro allI impI)
    fix ns content
    assume h: "descend t ns = Some (File content) \<and> \<not> dotName (last ns)
            \<and> (Ext (last ns) = ''.MD'' \<or> Ext (last ns) = ''.Md'' \<or> Ext (last ns) = ''.markdown'')"
    then have "Ext (last ns) \<noteq> ''.md''"
      by auto
    with h show "out w' (dstPath ns) = Some (OutFile content) \<and> map_of articles (srcPath ns) = None"
      by (intro asset) simp_all
  qed
  have p2: "\<forall>ns n.
            descend t ns = Some n \<and> \<not> isFolder n \<and> \<not> dotName (last ns)
            \<longrightarrow> (map_of articles (srcPath ns) = Some (strings_Join ns ''/'')) = (Ext (last ns) = ''.md'')
                \<and> (map_of articles (srcPath ns) = None) = (Ext (last ns) \<noteq> ''.md'')"
  proof (intro allI impI)
    fix ns n
    assume h: "descend t ns = Some n \<and> \<not> isFolder n \<and> \<not> dotName (last ns)"
    show "(map_of articles (srcPath ns) = Some (strings_Join ns ''/'')) = (Ext (last ns) = ''.md'')
                \<and> (map_of articles (srcPath ns) = None) = (Ext (last ns) \<noteq> ''.md'')"
    proof (cases "Ext (last ns) = ''.md''")
      case True
      with h art[of ns n] show ?thesis by simp
    next
      case False
      with h other[of ns n] show ?thesis by simp
    qed
  qed
  have p3: "\<forall>p rel. (p, rel) \<in> set articles \<longrightarrow>
            Ext p = ''.md''
            \<and> (\<exists>stem. Base p = stem @ ''.md''
                 \<and> destOf ev p rel
                     = Some (Join [Dir rel, ToLower (unicodeLower ev) (stem @ ''.html'')],
                             Join [destFolder, Dir rel, ToLower (unicodeLower ev) (stem @ ''.html'')]))"
  proof (intro allI impI)
    fix p rel
    assume "(p, rel) \<in> set articles"
    then have e: "Ext p = ''.md''"
      by (rule keys)
    from destOf_md[OF e, of ev rel] e
    show "Ext p = ''.md''
            \<and> (\<exists>stem. Base p = stem @ ''.md''
                 \<and> destOf ev p rel
                     = Some (Join [Dir rel, ToLower (unicodeLower ev) (stem @ ''.html'')],
                             Join [destFolder, Dir rel, ToLower (unicodeLower ev) (stem @ ''.html'')]))"
      by blast
  qed
  have p4: "Ext ''NOTES.MD'' = ''.MD''" "Ext ''Notes.Md'' = ''.Md''"
    "Ext ''notes.markdown'' = ''.markdown''"
    by (simp_all add: Ext_def)
  from p1 p2 p3 p4 show ?thesis
    by (intro conjI)
qed

theorem C10_exact_md_extension_witness:
  "wfTree exampleTree \<and> isFolder exampleTree
   \<and> descend exampleTree [''2023'', ''04'', ''NOTES.MD''] = Some (File ''upper'')
   \<and> \<not> dotName ''NOTES.MD'' \<and> Ext ''NOTES.MD'' = ''.MD''
   \<and> (\<exists>w' articles.
         Walk exampleWorld sourceArticlesFolder walkFn (exampleWorld, []) = (None, (w', articles))
         \<and> out w' ''../../xbarapp.com/public/docs/2023/04/NOTES.MD'' = Some (OutFile ''upper'')
         \<and> map_of articles ''../../xbarapp.com/articles/2023/04/NOTES.MD'' = None
         \<and> map_of articles ''../../xbarapp.com/articles/2023/04/My-Post.md''
             = Some ''2023/04/My-Post.md'')"
proof -
  from exampleWalk obtain w' articles where
    wk: "Walk exampleWorld sourceArticlesFolder walkFn (exampleWorld, []) = (None, (w', articles))"
    by blast
  have t: "articlesTree exampleWorld = Some exampleTree"
    by (simp add: exampleWorld_def)
  have wf: "wfTree exampleTree" and f: "isFolder exampleTree"
    using exampleTree_wf by simp_all
  note c = C10_exact_md_extension[OF t wf f wk, of exampleEnv]
  have d: "descend exampleTree [''2023'', ''04'', ''NOTES.MD''] = Some (File ''upper'')"
    by (simp add: exampleTree_def)
  have d2: "descend exampleTree [''2023'', ''04'', ''My-Post.md'']
      = Some (File ''first line\<newline>  ![alt](images/hero.png)\<newline>rest'')"
    by (simp add: exampleTree_def)
  have n: "\<not> dotName (last [''2023'', ''04'', ''NOTES.MD''])"
    "\<not> dotName (last [''2023'', ''04'', ''My-Post.md''])"
    by (simp_all add: dotName_def HasPrefix_def)
  have e: "Ext (last [''2023'', ''04'', ''NOTES.MD'']) = ''.MD''"
    "Ext (last [''2023'', ''04'', ''My-Post.md'']) = ''.md''"
    by (simp_all add: Ext_def)
  have s: "dstPath [''2023'', ''04'', ''NOTES.MD'']
             = ''../../xbarapp.com/public/docs/2023/04/NOTES.MD''"
    "srcPath [''2023'', ''04'', ''NOTES.MD'']
             = ''../../xbarapp.com/articles/2023/04/NOTES.MD''"
    "srcPath [''2023'', ''04'', ''My-Post.md'']
             = ''../../xbarapp.com/articles/2023/04/My-Post.md''"
    "strings_Join [''2023'', ''04'', ''My-Post.md''] ''/'' = ''2023/04/My-Post.md''"
    by (simp_all add: dstPath_def srcPath_def)
  from c[THEN conjunct1, rule_format, of "[''2023'', ''04'', ''NOTES.MD'']" "''upper''"] d n(1) e(1)
  have r1: "out w' ''../../xbarapp.com/public/docs/2023/04/NOTES.MD'' = Some (OutFile ''upper'')
      \<and> map_of articles ''../../xbarapp.com/articles/2023/04/NOTES.MD'' = None"
    unfolding s by blast
  have nf: "\<not> isFolder (File ''first line\<newline>  ![alt](images/hero.png)\<newline>rest'')"
    by (simp add: isFolder_def)
  from c[THEN conjunct2, THEN conjunct1, rule_format, of "[''2023'', ''04'', ''My-Post.md'']"
        "File ''first line\<newline>  ![alt](images/hero.png)\<newline>rest''"] d2 nf n(2) e(2)
  have r2: "map_of articles ''../../xbarapp.com/articles/2023/04/My-Post.md''
             = Some ''2023/04/My-Post.md''"
    unfolding s by blast
  from e(1) have "Ext ''NOTES.MD'' = ''.MD''" by simp
  moreover from n(1) have "\<not> dotName ''NOTES.MD''" by simp
  ultimately show ?thesis
    using wf f d wk r1 r2 by blast
qed

end
